theory Spec2Isabelle
  imports Complex_Main "HOL-Library.Word" "HOL-Library.Sublist"
begin

section \<open>JavaScript strings\<close>

text \<open>
  A JavaScript string is a sequence of 16-bit UTF-16 code units; \<open>indexOf\<close>,
  \<open>substring\<close>, \<open>trim\<close> and the regular expressions of
  \<^verbatim>\<open>services/geminiService.ts\<close> all work on code units. \<open>utf16\<close> turns an ASCII
  literal into its code units.
\<close>

type_synonym codeunit = "16 word"
type_synonym jsstring = "codeunit list"

definition utf16 :: "string \<Rightarrow> jsstring" where
  "utf16 s = map of_char s"

definition BACKTICK :: codeunit where "BACKTICK = 0x60"
definition LBRACE :: codeunit where "LBRACE = 0x7B"
definition RBRACE :: codeunit where "RBRACE = 0x7D"
definition DOT :: codeunit where "DOT = 0x2E"
definition PLUS :: codeunit where "PLUS = 0x2B"
definition MINUS :: codeunit where "MINUS = 0x2D"
definition LOWER_E :: codeunit where "LOWER_E = 0x65"
definition UPPER_E :: codeunit where "UPPER_E = 0x45"

text \<open>The class \<^verbatim>\<open>\d\<close> of a regular expression without the unicode flag: \<^verbatim>\<open>[0-9]\<close>.\<close>

definition isDigit :: "codeunit \<Rightarrow> bool" where
  "isDigit c \<longleftrightarrow> 0x30 \<le> c \<and> c \<le> 0x39"

text \<open>
  The code units \<^verbatim>\<open>String.prototype.trim\<close> strips: ECMAScript's WhiteSpace (TAB, VT, FF,
  SP, NBSP, ZWNBSP and the Unicode space separators) and LineTerminator (LF, CR, LS, PS).
\<close>

definition isWhiteSpace :: "codeunit \<Rightarrow> bool" where
  "isWhiteSpace c \<longleftrightarrow>
     c = 0x09 \<or> c = 0x0A \<or> c = 0x0B \<or> c = 0x0C \<or> c = 0x0D \<or> c = 0x20 \<or> c = 0xA0 \<or>
     c = 0x1680 \<or> (0x2000 \<le> c \<and> c \<le> 0x200A) \<or> c = 0x2028 \<or> c = 0x2029 \<or>
     c = 0x202F \<or> c = 0x205F \<or> c = 0x3000 \<or> c = 0xFEFF"

text \<open>\<^verbatim>\<open>s.indexOf(c)\<close> and \<^verbatim>\<open>s.lastIndexOf(c)\<close> for a one-unit needle; \<open>-1\<close> when absent.\<close>

fun indexOf :: "jsstring \<Rightarrow> codeunit \<Rightarrow> int" where
  "indexOf [] c = -1"
| "indexOf (x # xs) c =
     (if x = c then 0 else (let i = indexOf xs c in if i = -1 then -1 else i + 1))"

fun lastIndexOf :: "jsstring \<Rightarrow> codeunit \<Rightarrow> int" where
  "lastIndexOf [] c = -1"
| "lastIndexOf (x # xs) c =
     (let i = lastIndexOf xs c in if i \<noteq> -1 then i + 1 else if x = c then 0 else -1)"

text \<open>
  \<^verbatim>\<open>s.substring(a, b)\<close>: both arguments are clamped to \<open>[0, length]\<close> and swapped when
  the first exceeds the second.
\<close>

definition substring :: "jsstring \<Rightarrow> int \<Rightarrow> int \<Rightarrow> jsstring" where
  "substring s a b =
     (let n = int (length s);
          a' = min (max a 0) n;
          b' = min (max b 0) n;
          lo = min a' b';
          hi = max a' b'
      in take (nat (hi - lo)) (drop (nat lo) s))"

definition trim :: "jsstring \<Rightarrow> jsstring" where
  "trim s = rev (dropWhile isWhiteSpace (rev (dropWhile isWhiteSpace s)))"

section \<open>Global regular-expression replacement\<close>

text \<open>
  \<^verbatim>\<open>s.replace(/re/g, f)\<close> scans \<open>s\<close> from left to right. At each position the
  expression is tried; on a match the replacement is emitted and the scan resumes right
  after the match, otherwise the code unit is copied and the scan moves one unit on. A
  matcher stands for the expression anchored at the head of the remaining text: it
  returns the replacement text and the number of code units the match consumed. None of
  the expressions below matches the empty string.
\<close>

type_synonym matcher = "jsstring \<Rightarrow> (jsstring \<times> nat) option"

fun replaceG :: "matcher \<Rightarrow> jsstring \<Rightarrow> jsstring" where
  "replaceG m [] = []"
| "replaceG m (c # cs) =
     (case m (c # cs) of
        Some (r, n) \<Rightarrow> r @ replaceG m (drop (n - 1) cs)
      | None \<Rightarrow> c # replaceG m cs)"

text \<open>A literal pattern replaced by the empty string, as in \<^verbatim>\<open>replace(/```/g, "")\<close>.\<close>

definition matchLit :: "jsstring \<Rightarrow> matcher" where
  "matchLit pat s = (if pat \<noteq> [] \<and> prefix pat s then Some ([], length pat) else None)"

text \<open>
  The regular expressions of \<open>cleanJson\<close> are built from classes of code units, a
  greedy \<^verbatim>\<open>+\<close> and a fixed repetition on a class, a greedy \<^verbatim>\<open>?\<close>, and
  concatenation.
\<close>

datatype regex =
    OneOf "codeunit \<Rightarrow> bool"
  | Then regex regex
  | OneOrMore "codeunit \<Rightarrow> bool"
  | Exactly nat "codeunit \<Rightarrow> bool"
  | Optional regex

text \<open>
  The backtracking matcher, as the list of its successes: \<open>ends r s\<close> are the lengths of
  the matches of \<open>r\<close> at the head of \<open>s\<close>, in the order in which the matcher tries
  them. A greedy \<^verbatim>\<open>+\<close> tries the longest run first, then the shorter ones; a greedy
  \<^verbatim>\<open>?\<close> tries its operand first, then the empty match. The matcher takes the first
  success.
\<close>

fun ends :: "regex \<Rightarrow> jsstring \<Rightarrow> nat list" where
  "ends (OneOf p) s = (case s of [] \<Rightarrow> [] | c # _ \<Rightarrow> if p c then [1] else [])"
| "ends (Then r1 r2) s = concat (map (\<lambda>n. map (\<lambda>k. n + k) (ends r2 (drop n s))) (ends r1 s))"
| "ends (OneOrMore p) s = rev [1..<Suc (length (takeWhile p s))]"
| "ends (Exactly k p) s = (if k \<le> length (takeWhile p s) then [k] else [])"
| "ends (Optional r) s = ends r s @ [0]"

text \<open>
  An expression of the form \<^verbatim>\<open>(g)r\<close>, a capture group followed by the rest: the text of
  group 1 and the length of the whole match, for the first success.
\<close>

definition execGroup :: "regex \<Rightarrow> regex \<Rightarrow> jsstring \<Rightarrow> (jsstring \<times> nat) option" where
  "execGroup g r s =
     (case concat (map (\<lambda>n. map (Pair n) (ends r (drop n s))) (ends g s)) of
        [] \<Rightarrow> None
      | (n, k) # _ \<Rightarrow> Some (take n s, n + k))"

text \<open>\<^verbatim>\<open>/(\d+\.\d{6})\d+/\<close> with the replacement \<^verbatim>\<open>'$1'\<close>, the text of group 1.\<close>

definition matchLongDecimal :: matcher where
  "matchLongDecimal s =
     execGroup (Then (OneOrMore isDigit) (Then (OneOf (\<lambda>c. c = DOT)) (Exactly 6 isDigit)))
       (OneOrMore isDigit) s"

text \<open>
  \<^verbatim>\<open>/(\d+\.\d+)[eE][+-]?\d+/\<close> with the callback of \<open>cleanJson\<close>: \<open>numberPart\<close> is
  group 1, and the callback returns \<^verbatim>\<open>numberPart.substring(0, dotIndex + 3)\<close> when
  \<open>numberPart\<close> has a dot.
\<close>

definition matchSciNotation :: matcher where
  "matchSciNotation s =
     map_option
       (\<lambda>(numberPart, n).
          (let dotIndex = indexOf numberPart DOT
           in if dotIndex \<noteq> -1 then substring numberPart 0 (dotIndex + 3) else numberPart, n))
       (execGroup
          (Then (OneOrMore isDigit) (Then (OneOf (\<lambda>c. c = DOT)) (OneOrMore isDigit)))
          (Then (OneOf (\<lambda>c. c = LOWER_E \<or> c = UPPER_E))
             (Then (Optional (OneOf (\<lambda>c. c = PLUS \<or> c = MINUS))) (OneOrMore isDigit)))
          s)"

text \<open>The optional sign at the head of a text: the sign, or nothing.\<close>

definition optSign :: "jsstring \<Rightarrow> jsstring" where
  "optSign r = (case r of [] \<Rightarrow> [] | x # _ \<Rightarrow> if x = PLUS \<or> x = MINUS then [x] else [])"

section \<open>cleanJson\<close>

text \<open>
  The stages of \<open>cleanJson\<close> (lines 221 to 249), in the order of the source: the two
  fence replacements, the brace span, the two numeric rewrites, and \<open>trim\<close>.
\<close>

definition stripFences :: "jsstring \<Rightarrow> jsstring" where
  "stripFences text =
     replaceG (matchLit [BACKTICK, BACKTICK, BACKTICK])
       (replaceG (matchLit ([BACKTICK, BACKTICK, BACKTICK] @ utf16 ''json'')) text)"

definition extractSpan :: "jsstring \<Rightarrow> jsstring" where
  "extractSpan cleaned =
     (let firstBrace = indexOf cleaned LBRACE;
          lastBrace = lastIndexOf cleaned RBRACE
      in if firstBrace \<noteq> -1 \<and> lastBrace \<noteq> -1 \<and> lastBrace > firstBrace
         then substring cleaned firstBrace (lastBrace + 1)
         else cleaned)"

definition truncateDecimals :: "jsstring \<Rightarrow> jsstring" where
  "truncateDecimals cleaned = replaceG matchLongDecimal cleaned"

definition dropExponents :: "jsstring \<Rightarrow> jsstring" where
  "dropExponents cleaned = replaceG matchSciNotation cleaned"

definition normalizeNumbers :: "jsstring \<Rightarrow> jsstring" where
  "normalizeNumbers cleaned = dropExponents (truncateDecimals cleaned)"

definition cleanJson :: "jsstring \<Rightarrow> jsstring" where
  "cleanJson text = trim (normalizeNumbers (extractSpan (stripFences text)))"

text \<open>The earlier revision of \<open>cleanJson\<close> (lines 15 to 28) has no numeric rewrites.\<close>

definition cleanJson_plain :: "jsstring \<Rightarrow> jsstring" where
  "cleanJson_plain text = trim (extractSpan (stripFences text))"

section \<open>JSON values and JSON.parse\<close>

text \<open>
  \<^verbatim>\<open>JSON.parse\<close> belongs to the JavaScript runtime. It is modelled after the JSON grammar
  of ECMA-404 as a recursive-descent parser. Numbers are exact reals here: the value of
  a literal is its decimal value, and the rounding of IEEE-754 double arithmetic is not
  part of the model. An object is the list of its properties in insertion order; a
  repeated key overwrites the earlier value in place, as property assignment does.
\<close>

datatype json =
    JNull
  | JBool bool
  | JNumber real
  | JString jsstring
  | JArray "json list"
  | JObject "(jsstring \<times> json) list"

text \<open>
  What JavaScript code can throw: an \<open>Error\<close> instance with its message, a
  \<open>SyntaxError\<close> (also an \<open>Error\<close> instance) with its message, or a value that is
  no \<open>Error\<close> at all.
\<close>

datatype exn = Error jsstring | SyntaxError jsstring | NonError

definition QUOTE :: codeunit where "QUOTE = 0x22"
definition BACKSLASH :: codeunit where "BACKSLASH = 0x5C"
definition COMMA :: codeunit where "COMMA = 0x2C"
definition COLON :: codeunit where "COLON = 0x3A"
definition LBRACKET :: codeunit where "LBRACKET = 0x5B"
definition RBRACKET :: codeunit where "RBRACKET = 0x5D"

definition isJsonWs :: "codeunit \<Rightarrow> bool" where
  "isJsonWs c \<longleftrightarrow> c = 0x20 \<or> c = 0x09 \<or> c = 0x0A \<or> c = 0x0D"

definition skipWs :: "jsstring \<Rightarrow> jsstring" where
  "skipWs s = dropWhile isJsonWs s"

definition digitVal :: "codeunit \<Rightarrow> nat" where
  "digitVal c = unat c - 48"

definition digitsVal :: "jsstring \<Rightarrow> nat" where
  "digitsVal ds = foldl (\<lambda>a c. 10 * a + digitVal c) 0 ds"

text \<open>
  A number token: \<^verbatim>\<open>-? (0 | [1-9][0-9]*) (. [0-9]+)? ([eE] [+-]? [0-9]+)?\<close>. The result is
  the value and the text after the token.
\<close>

definition parseNumber :: "jsstring \<Rightarrow> (real \<times> jsstring) option" where
  "parseNumber s =
     (let neg = (s \<noteq> [] \<and> hd s = MINUS);
          s1 = (if neg then tl s else s);
          ip = takeWhile isDigit s1;
          r1 = dropWhile isDigit s1
      in if ip = [] \<or> (1 < length ip \<and> hd ip = 0x30) then None
         else
           let hasFrac = (r1 \<noteq> [] \<and> hd r1 = DOT);
               fp = (if hasFrac then takeWhile isDigit (tl r1) else []);
               r3 = (if hasFrac then dropWhile isDigit (tl r1) else r1)
           in if hasFrac \<and> fp = [] then None
              else
                let mant = of_nat (digitsVal ip) + of_nat (digitsVal fp) / 10 ^ length fp;
                    hasExp = (r3 \<noteq> [] \<and> (hd r3 = LOWER_E \<or> hd r3 = UPPER_E));
                    sg = (if hasExp then optSign (tl r3) else []);
                    ex = (if hasExp then takeWhile isDigit (drop (length sg) (tl r3)) else []);
                    r5 = (if hasExp then dropWhile isDigit (drop (length sg) (tl r3)) else r3)
                in if hasExp \<and> ex = [] then None
                   else
                     let scaled = (if sg = [MINUS] then mant / 10 ^ digitsVal ex
                                   else mant * 10 ^ digitsVal ex)
                     in Some (if neg then - scaled else scaled, r5))"

definition isHexDigit :: "codeunit \<Rightarrow> bool" where
  "isHexDigit c \<longleftrightarrow> isDigit c \<or> (0x41 \<le> c \<and> c \<le> 0x46) \<or> (0x61 \<le> c \<and> c \<le> 0x66)"

definition hexVal :: "codeunit \<Rightarrow> codeunit" where
  "hexVal c = (if isDigit c then c - 0x30 else if c \<le> 0x46 then c - 0x37 else c - 0x57)"

definition escapeOf :: "codeunit \<Rightarrow> codeunit option" where
  "escapeOf e =
     (if e = QUOTE \<or> e = BACKSLASH \<or> e = 0x2F then Some e
      else if e = 0x62 then Some 0x08
      else if e = 0x66 then Some 0x0C
      else if e = 0x6E then Some 0x0A
      else if e = 0x72 then Some 0x0D
      else if e = 0x74 then Some 0x09
      else None)"

text \<open>
  The characters of a string token after its opening quote, up to the closing quote:
  the decoded code units and the text after the closing quote.
\<close>

fun parseChars :: "jsstring \<Rightarrow> (jsstring \<times> jsstring) option" where
  "parseChars [] = None"
| "parseChars (c # cs) =
     (if c = QUOTE then Some ([], cs)
      else if c = BACKSLASH then
        (case cs of
           [] \<Rightarrow> None
         | e # cs' \<Rightarrow>
             if e = 0x75 then
               (if 4 \<le> length cs' \<and> list_all isHexDigit (take 4 cs')
                then map_option (\<lambda>(str, rest). (foldl (\<lambda>a h. 16 * a + hexVal h) 0 (take 4 cs') # str, rest))
                       (parseChars (drop 4 cs'))
                else None)
             else
               (case escapeOf e of
                  None \<Rightarrow> None
                | Some x \<Rightarrow> map_option (\<lambda>(str, rest). (x # str, rest)) (parseChars cs')))
      else if c < 0x20 then None
      else map_option (\<lambda>(str, rest). (c # str, rest)) (parseChars cs))"

fun setProperty :: "(jsstring \<times> json) list \<Rightarrow> jsstring \<times> json \<Rightarrow> (jsstring \<times> json) list" where
  "setProperty [] kv = [kv]"
| "setProperty (p # ps) kv = (if fst p = fst kv then kv # ps else p # setProperty ps kv)"

text \<open>
  The fuel bounds the depth of the descent. A step down costs one unit of fuel; it comes
  after a bracket, a brace or a comma that has been consumed, or it goes to the first
  element behind a bracket whose closing bracket is still to be consumed. So a text needs
  no more fuel than it has code units, and \<open>JSON_parse\<close> starts with one unit more.
\<close>

fun parseValue :: "nat \<Rightarrow> jsstring \<Rightarrow> (json \<times> jsstring) option"
  and parseElements :: "nat \<Rightarrow> jsstring \<Rightarrow> (json list \<times> jsstring) option"
  and parseMembers :: "nat \<Rightarrow> jsstring \<Rightarrow> ((jsstring \<times> json) list \<times> jsstring) option"
where
  "parseValue 0 s = None"
| "parseValue (Suc n) s =
     (case skipWs s of
        [] \<Rightarrow> None
      | c # cs \<Rightarrow>
          if c = LBRACE then
            (case skipWs cs of
               [] \<Rightarrow> None
             | c2 # cs2 \<Rightarrow>
                 if c2 = RBRACE then Some (JObject [], cs2)
                 else map_option (\<lambda>(ms, rest). (JObject (foldl setProperty [] ms), rest))
                        (parseMembers n cs))
          else if c = LBRACKET then
            (case skipWs cs of
               [] \<Rightarrow> None
             | c2 # cs2 \<Rightarrow>
                 if c2 = RBRACKET then Some (JArray [], cs2)
                 else map_option (\<lambda>(vs, rest). (JArray vs, rest)) (parseElements n cs))
          else if c = QUOTE then
            map_option (\<lambda>(str, rest). (JString str, rest)) (parseChars cs)
          else if prefix (utf16 ''true'') (c # cs) then Some (JBool True, drop 4 (c # cs))
          else if prefix (utf16 ''false'') (c # cs) then Some (JBool False, drop 5 (c # cs))
          else if prefix (utf16 ''null'') (c # cs) then Some (JNull, drop 4 (c # cs))
          else map_option (\<lambda>(x, rest). (JNumber x, rest)) (parseNumber (c # cs)))"
| "parseElements 0 s = None"
| "parseElements (Suc n) s =
     (case parseValue n s of
        None \<Rightarrow> None
      | Some (v, rest) \<Rightarrow>
          (case skipWs rest of
             [] \<Rightarrow> None
           | c # cs \<Rightarrow>
               if c = COMMA then map_option (\<lambda>(vs, rest'). (v # vs, rest')) (parseElements n cs)
               else if c = RBRACKET then Some ([v], cs)
               else None))"
| "parseMembers 0 s = None"
| "parseMembers (Suc n) s =
     (case skipWs s of
        [] \<Rightarrow> None
      | q # cs \<Rightarrow>
          if q \<noteq> QUOTE then None
          else
            (case parseChars cs of
               None \<Rightarrow> None
             | Some (k, rest) \<Rightarrow>
                 (case skipWs rest of
                    [] \<Rightarrow> None
                  | c # cs2 \<Rightarrow>
                      if c \<noteq> COLON then None
                      else
                        (case parseValue n cs2 of
                           None \<Rightarrow> None
                         | Some (v, rest2) \<Rightarrow>
                             (case skipWs rest2 of
                                [] \<Rightarrow> None
                              | c3 # cs3 \<Rightarrow>
                                  if c3 = COMMA then
                                    map_option (\<lambda>(ms, rest'). ((k, v) # ms, rest')) (parseMembers n cs3)
                                  else if c3 = RBRACE then Some ([(k, v)], cs3)
                                  else None)))))"

text \<open>The message of the \<open>SyntaxError\<close> is the engine's own; the model fixes one text.\<close>

definition syntaxErrorMessage :: jsstring where
  "syntaxErrorMessage = utf16 ''Unexpected token or end of JSON input''"

definition JSON_parse :: "jsstring \<Rightarrow> exn + json" where
  "JSON_parse s =
     (case parseValue (Suc (length s)) s of
        None \<Rightarrow> Inl (SyntaxError syntaxErrorMessage)
      | Some (v, rest) \<Rightarrow>
          if skipWs rest = [] then Inr v else Inl (SyntaxError syntaxErrorMessage))"

section \<open>The rounding reviver\<close>

text \<open>
  \<^verbatim>\<open>Math.round(x)\<close> is the integer closest to \<open>x\<close>; of two equally close integers it
  is the one towards plus infinity.
\<close>

definition Math_round :: "real \<Rightarrow> real" where
  "Math_round x = of_int \<lfloor>x + 1 / 2\<rfloor>"

text \<open>\<open>jsonReviver\<close> (lines 252 to 257). The key is not looked at.\<close>

definition jsonReviver :: "jsstring \<Rightarrow> json \<Rightarrow> json" where
  "jsonReviver key v =
     (case v of
        JNumber x \<Rightarrow> JNumber (Math_round (x * 100) / 100)
      | _ \<Rightarrow> v)"

text \<open>The decimal text of an array index, the key under which an element is revived.\<close>

fun indexKey :: "nat \<Rightarrow> jsstring" where
  "indexKey n = (if n < 10 then [of_nat (48 + n)] else indexKey (n div 10) @ [of_nat (48 + n mod 10)])"

text \<open>
  \<^verbatim>\<open>JSON.parse(text, reviver)\<close> walks the parsed tree bottom-up: the elements of an array
  and the properties of an object are replaced by their revived values, then the reviver
  is called on the value itself. A reviver that returned \<open>undefined\<close> would delete the
  property; \<open>jsonReviver\<close> never does, so the walk keeps every property.
\<close>

function internalize :: "(jsstring \<Rightarrow> json \<Rightarrow> json) \<Rightarrow> jsstring \<Rightarrow> json \<Rightarrow> json" where
  "internalize reviver key (JArray vs) =
     reviver key (JArray (map (\<lambda>(i, v). internalize reviver (indexKey i) v) (zip [0..<length vs] vs)))"
| "internalize reviver key (JObject ms) =
     reviver key (JObject (map (\<lambda>(k, v). (k, internalize reviver k v)) ms))"
| "internalize reviver key JNull = reviver key JNull"
| "internalize reviver key (JBool b) = reviver key (JBool b)"
| "internalize reviver key (JNumber x) = reviver key (JNumber x)"
| "internalize reviver key (JString t) = reviver key (JString t)"
  by pat_completeness auto
termination
proof (relation "measure (\<lambda>(r, k, v). size v)")
  show "wf (measure (\<lambda>(r, k, v). size v))" by simp
next
  fix reviver :: "jsstring \<Rightarrow> json \<Rightarrow> json" and key :: jsstring and vs :: "json list" and x i v
  assume "x \<in> set (zip [0..<length vs] vs)" "(i, v) = x"
  then have "v \<in> set vs" by (metis set_zip_rightD)
  then have "size v < Suc (size_list size vs)"
    by (simp add: less_Suc_eq_le size_list_estimation')
  then show "((reviver, indexKey i, v), (reviver, key, JArray vs)) \<in> measure (\<lambda>(r, k, v). size v)"
    by simp
next
  fix reviver :: "jsstring \<Rightarrow> json \<Rightarrow> json" and key :: jsstring and ms :: "(jsstring \<times> json) list" and x k v
  assume "x \<in> set ms" "(k, v) = x"
  then have "(k, v) \<in> set ms" by simp
  then have "size_prod (\<lambda>_. 0) size (k, v) \<le> size_list (size_prod (\<lambda>_. 0) size) ms"
    by (rule size_list_estimation') simp
  then show "((reviver, k, v), (reviver, key, JObject ms)) \<in> measure (\<lambda>(r, k, v). size v)"
    by simp
qed

definition JSON_parse_reviver :: "jsstring \<Rightarrow> (jsstring \<Rightarrow> json \<Rightarrow> json) \<Rightarrow> exn + json" where
  "JSON_parse_reviver s reviver =
     (case JSON_parse s of
        Inl e \<Rightarrow> Inl e
      | Inr v \<Rightarrow> Inr (internalize reviver [] v))"

section \<open>The operations of the service\<close>

text \<open>
  What \<^verbatim>\<open>ai.models.generateContent\<close> gives back is the parameter of every operation:
  either the call throws, or it returns a response whose text (\<open>responseText\<close>) may
  be missing. The prompt and the schema an operation sends only reach the model, so they
  are not part of the operation's own computation. Console output is returned as a list
  of entries.
\<close>

record webRef =
  uri :: "jsstring option"
  title :: "jsstring option"

record groundingChunk =
  web :: "webRef option"

record response =
  responseText :: "jsstring option"
  groundingChunks :: "groundingChunk list option"

datatype consoleEntry =
    ConsoleError jsstring exn
  | ConsoleDebug jsstring jsstring

text \<open>\<^verbatim>\<open>!response.text\<close>: the text is missing or empty.\<close>

definition noText :: "response \<Rightarrow> bool" where
  "noText r \<longleftrightarrow> responseText r = None \<or> responseText r = Some []"

text \<open>\<^verbatim>\<open>x || d\<close> on a string that may be missing.\<close>

definition orElse :: "jsstring option \<Rightarrow> jsstring \<Rightarrow> jsstring" where
  "orElse x d = (case x of None \<Rightarrow> d | Some t \<Rightarrow> if t = [] then d else t)"

text \<open>\<open>generateRubricFromText\<close> (lines 262 to 318).\<close>

definition generateRubricFromText :: "exn + response \<Rightarrow> consoleEntry list \<times> (exn + json)" where
  "generateRubricFromText upstream =
     (case upstream of
        Inl e \<Rightarrow> ([], Inl e)
      | Inr response \<Rightarrow>
          if noText response then ([], Inl (Error (utf16 ''No response from Gemini'')))
          else
            (case JSON_parse_reviver (cleanJson (the (responseText response))) jsonReviver of
               Inr v \<Rightarrow> ([], Inr v)
             | Inl e \<Rightarrow>
                 ([ConsoleError (utf16 ''Failed to parse Rubric JSON'') e,
                   ConsoleDebug (utf16 ''Raw Rubric Response:'') (the (responseText response))],
                  Inl (Error (utf16 ''Failed to parse rubric structure. Please try again.'')))))"

text \<open>\<open>evaluateSubmission\<close> (lines 323 to 401).\<close>

definition evaluateSubmission :: "exn + response \<Rightarrow> consoleEntry list \<times> (exn + json)" where
  "evaluateSubmission upstream =
     (case upstream of
        Inl e \<Rightarrow> ([], Inl e)
      | Inr response \<Rightarrow>
          if noText response then ([], Inl (Error (utf16 ''No evaluation generated'')))
          else
            (case JSON_parse_reviver (cleanJson (the (responseText response))) jsonReviver of
               Inr v \<Rightarrow> ([], Inr v)
             | Inl e \<Rightarrow>
                 ([ConsoleError (utf16 ''Failed to parse Evaluation JSON'') e,
                   ConsoleDebug (utf16 ''Raw Evaluation Response:'') (the (responseText response))],
                  Inl (Error (utf16
                    ''Failed to parse evaluation result. The model may have been interrupted or produced invalid JSON.'')))))"

text \<open>\<^verbatim>\<open>e instanceof Error ? e.message : "Unknown error"\<close>.\<close>

definition errorMessage :: "exn \<Rightarrow> jsstring" where
  "errorMessage e =
     (case e of
        Error m \<Rightarrow> m
      | SyntaxError m \<Rightarrow> m
      | NonError \<Rightarrow> utf16 ''Unknown error'')"

text \<open>The object literal returned by the \<open>catch\<close> block of \<open>analyzeCodeRepository\<close>.\<close>

definition failedAnalysis :: "jsstring \<Rightarrow> exn \<Rightarrow> json" where
  "failedAnalysis repoUrl e =
     JObject
       [(utf16 ''repo_url'', JString repoUrl),
        (utf16 ''summary'',
           JString (utf16 ''Failed to analyze repository due to access restrictions or model error.'')),
        (utf16 ''implementation_score'', JNumber 0),
        (utf16 ''max_score'', JNumber 10),
        (utf16 ''evidence'', JArray []),
        (utf16 ''status'', JString (utf16 ''failed'')),
        (utf16 ''error_message'', JString (errorMessage e))]"

text \<open>
  \<open>analyzeCodeRepository\<close> (lines 434 to 508). The body of the \<open>try\<close> block is
  \<open>analyzeAttempt\<close>: the upstream call, the check for an empty text, and the decoding.
  \<open>fetchGithubContent\<close> runs before the block and catches its own failures; what it
  fetched only goes into the prompt.
\<close>

definition analyzeAttempt :: "exn + response \<Rightarrow> exn + json" where
  "analyzeAttempt upstream =
     (case upstream of
        Inl e \<Rightarrow> Inl e
      | Inr response \<Rightarrow>
          if noText response then Inl (Error (utf16 ''No code analysis response''))
          else JSON_parse_reviver (cleanJson (the (responseText response))) jsonReviver)"

definition analyzeCodeRepository :: "jsstring \<Rightarrow> exn + response \<Rightarrow> consoleEntry list \<times> json" where
  "analyzeCodeRepository repoUrl upstream =
     (case analyzeAttempt upstream of
        Inr v \<Rightarrow> ([], v)
      | Inl e \<Rightarrow> ([ConsoleError (utf16 ''Code Analysis Failed'') e], failedAnalysis repoUrl e))"

text \<open>\<open>transcribeAudioNote\<close> (lines 513 to 524).\<close>

definition transcribeAudioNote :: "exn + response \<Rightarrow> exn + jsstring" where
  "transcribeAudioNote upstream =
     (case upstream of
        Inl e \<Rightarrow> Inl e
      | Inr response \<Rightarrow> Inr (orElse (responseText response) []))"

text \<open>\<open>checkFacts\<close> (lines 529 to 552).\<close>

record source =
  source_uri :: jsstring
  source_title :: jsstring

record GroundingResult =
  query :: jsstring
  sources :: "source list"
  resultText :: jsstring

definition toSource :: "groundingChunk \<Rightarrow> source" where
  "toSource c =
     \<lparr>source_uri = orElse (case web c of None \<Rightarrow> None | Some w \<Rightarrow> uri w) [],
      source_title = orElse (case web c of None \<Rightarrow> None | Some w \<Rightarrow> title w) (utf16 ''Source'')\<rparr>"

definition checkFacts :: "jsstring \<Rightarrow> exn + response \<Rightarrow> exn + GroundingResult" where
  "checkFacts q upstream =
     (case upstream of
        Inl e \<Rightarrow> Inl e
      | Inr response \<Rightarrow>
          let chunks = (case groundingChunks response of None \<Rightarrow> [] | Some cs \<Rightarrow> cs);
              srcs = filter (\<lambda>s. source_uri s \<noteq> []) (map toSource chunks)
          in Inr \<lparr>query = q, sources = srcs,
                  resultText = orElse (responseText response) (utf16 ''No information found.'')\<rparr>)"

section \<open>Notions used in the statements\<close>

text \<open>Reading a property of an object, as in \<^verbatim>\<open>result.status\<close>.\<close>

fun property :: "jsstring \<Rightarrow> json \<Rightarrow> json option" where
  "property k (JObject ms) = map_of ms k"
| "property k v = None"

text \<open>
  The code units a number token is written with, and those of an exponent part other than
  its digits.
\<close>

definition isNumberChar :: "codeunit \<Rightarrow> bool" where
  "isNumberChar c \<longleftrightarrow> isDigit c \<or> c = DOT \<or> c = LOWER_E \<or> c = UPPER_E \<or> c = PLUS \<or> c = MINUS"


text \<open>
  A text has a decimal point when somewhere in it a dot stands between two digits. Both
  numeric expressions need one to match.
\<close>

fun hasDecimalPoint :: "jsstring \<Rightarrow> bool" where
  "hasDecimalPoint (a # b # c # rest) =
     ((isDigit a \<and> b = DOT \<and> isDigit c) \<or> hasDecimalPoint (b # c # rest))"
| "hasDecimalPoint _ = False"

text \<open>
  A decimal literal: an optional minus sign, digits, a dot, digits, and an optional
  exponent part (\<open>e\<close> or \<open>E\<close>, an optional sign, digits).
\<close>

definition isExponentPart :: "jsstring \<Rightarrow> bool" where
  "isExponentPart r \<longleftrightarrow>
     r \<noteq> [] \<and> (hd r = LOWER_E \<or> hd r = UPPER_E) \<and>
     (let ex = drop (length (optSign (tl r))) (tl r) in ex \<noteq> [] \<and> list_all isDigit ex)"

definition isDecimalLiteral :: "jsstring \<Rightarrow> bool" where
  "isDecimalLiteral b \<longleftrightarrow>
     (let b1 = (if b \<noteq> [] \<and> hd b = MINUS then tl b else b);
          ip = takeWhile isDigit b1;
          r1 = dropWhile isDigit b1
      in ip \<noteq> [] \<and> r1 \<noteq> [] \<and> hd r1 = DOT \<and>
         (let fp = takeWhile isDigit (tl r1); r3 = dropWhile isDigit (tl r1)
          in fp \<noteq> [] \<and> (r3 = [] \<or> isExponentPart r3)))"

text \<open>
  A text is delimited when each of its maximal runs of number code units that has a
  decimal point is a decimal literal, as the number tokens of a JSON document are.
\<close>

function delimited :: "jsstring \<Rightarrow> bool" where
  "delimited [] = True"
| "delimited (c # cs) =
     (if isNumberChar c
      then (let b = takeWhile isNumberChar (c # cs)
            in (\<not> hasDecimalPoint b \<or> isDecimalLiteral b) \<and> delimited (dropWhile isNumberChar cs))
      else delimited cs)"
  by pat_completeness auto
termination
  by (relation "measure length") (auto simp: less_Suc_eq_le length_dropWhile_le)

text \<open>
  Rounding to two decimals in the words of the specification: on the value times 100,
  then divided by 100. \<open>roundHalfUp2\<close> sends a tie to the next integer above,
  \<open>roundHalfAway2\<close> away from zero. \<open>roundLeaves f\<close> applies \<open>f\<close> to every numeric
  leaf and leaves the other leaves and the shape as they are.
\<close>

definition roundHalfUp2 :: "real \<Rightarrow> real" where
  "roundHalfUp2 x = of_int \<lfloor>x * 100 + 1 / 2\<rfloor> / 100"



section \<open>The regular expressions as scanners\<close>

text \<open>
  Both numeric expressions are deterministic at the head of a text: each greedy run of
  digits is followed by an item that is not a digit, so only the whole run can succeed.
  \<open>matchLongDecimal_unfold\<close> and \<open>matchSciNotation_unfold\<close> give the resulting
  scanners, built from \<open>takeWhile\<close> and \<open>dropWhile\<close>.
\<close>

lemma not_digit [simp]:
  "\<not> isDigit DOT" "\<not> isDigit LOWER_E" "\<not> isDigit UPPER_E" "\<not> isDigit PLUS" "\<not> isDigit MINUS"
  by (simp_all add: isDigit_def DOT_def LOWER_E_def UPPER_E_def PLUS_def MINUS_def)

lemma concat_first_only:
  assumes "\<And>n. n \<in> set ns \<Longrightarrow> f n = []"
  shows "concat (map f (n0 # ns)) = f n0"
  using assms by (simp add: concat_eq_Nil_conv)

lemma takeWhile_drop: "k \<le> length (takeWhile P xs) \<Longrightarrow> takeWhile P (drop k xs) = drop k (takeWhile P xs)"
proof (induction xs arbitrary: k)
  case Nil
  show ?case by simp
next
  case (Cons x xs)
  show ?case
  proof (cases k)
    case 0
    then show ?thesis by simp
  next
    case (Suc j)
    with Cons(2) have "P x" by (auto split: if_splits)
    with Cons Suc show ?thesis by simp
  qed
qed

lemma drop_in_run:
  assumes "n < length (takeWhile P s)"
  shows "\<exists>c cs. drop n s = c # cs \<and> P c"
proof -
  have "drop n s = drop n (takeWhile P s) @ dropWhile P s"
    using assms by (metis drop_append less_imp_le_nat takeWhile_dropWhile_id diff_is_0_eq drop_0)
  moreover from assms obtain c cs where d: "drop n (takeWhile P s) = c # cs"
    by (cases "drop n (takeWhile P s)") auto
  moreover have "c \<in> set (takeWhile P s)" using d by (metis in_set_dropD list.set_intros(1))
  then have "P c" by (auto dest: set_takeWhileD)
  ultimately show ?thesis by auto
qed

text \<open>A greedy run followed by an expression that cannot start with a unit of the run.\<close>

lemma ends_run_then:
  assumes "\<And>c cs. P c \<Longrightarrow> ends X (c # cs) = []"
  shows "ends (Then (OneOrMore P) X) s =
           (if takeWhile P s = [] then []
            else map (\<lambda>k. length (takeWhile P s) + k) (ends X (dropWhile P s)))"
proof (cases "takeWhile P s = []")
  case True
  then show ?thesis by simp
next
  case False
  define N where "N = length (takeWhile P s)"
  from False have N: "0 < N" by (simp add: N_def)
  then have r: "rev [1..<Suc N] = N # rev [1..<N]" by (cases N) auto
  have z: "map (\<lambda>k. n + k) (ends X (drop n s)) = []" if "n \<in> set (rev [1..<N])" for n
  proof -
    from that have "n < N" by simp
    then obtain c cs where "drop n s = c # cs" "P c" using drop_in_run N_def by blast
    then show ?thesis using assms by simp
  qed
  have d: "drop N s = dropWhile P s"
    unfolding N_def by (metis append_eq_conv_conj takeWhile_dropWhile_id)
  have "ends (Then (OneOrMore P) X) s = concat (map (\<lambda>n. map (\<lambda>k. n + k) (ends X (drop n s))) (N # rev [1..<N]))"
    by (simp only: ends.simps N_def[symmetric] r)
  also have "\<dots> = map (\<lambda>k. N + k) (ends X (drop N s))"
    by (rule concat_first_only) (rule z)
  finally show ?thesis using False d by (simp add: N_def)
qed

lemma ends_unit_then:
  "ends (Then (OneOf p) X) s =
     (case s of [] \<Rightarrow> [] | c # r2 \<Rightarrow> if p c then map Suc (ends X r2) else [])"
  by (cases s) auto

lemma ends_run: "ends (OneOrMore p) s = rev [1..<Suc (length (takeWhile p s))]"
  by simp

lemma ends_exactly: "ends (Exactly k p) s = (if k \<le> length (takeWhile p s) then [k] else [])"
  by simp

lemma map_add_0: "map ((+) (0::nat)) xs = xs"
  by (induction xs) auto

lemma ends_optional_then:
  "ends (Then (Optional (OneOf p)) X) s =
     (case s of [] \<Rightarrow> [] | c # r \<Rightarrow> if p c then map Suc (ends X r) else []) @ ends X s"
  by (cases s) (auto simp: map_add_0)

declare ends.simps [simp del]


lemma ends_group_long:
  "ends (Then (OneOrMore isDigit) (Then (OneOf (\<lambda>c. c = DOT)) (Exactly 6 isDigit))) s =
     (if takeWhile isDigit s = [] then []
      else case dropWhile isDigit s of
        [] \<Rightarrow> []
      | c # r2 \<Rightarrow> if c = DOT \<and> 6 \<le> length (takeWhile isDigit r2)
                  then [length (takeWhile isDigit s) + 7] else [])"
proof -
  have "ends (Then (OneOf (\<lambda>c. c = DOT)) (Exactly 6 isDigit)) (c # cs) = []" if "isDigit c" for c cs
    using that not_digit(1) by (auto simp: ends_unit_then)
  note step = ends_run_then [of isDigit "Then (OneOf (\<lambda>c. c = DOT)) (Exactly 6 isDigit)", OF this]
  show ?thesis
    by (cases "dropWhile isDigit s") (simp_all add: step ends_unit_then ends_exactly del: dropWhile_eq_Nil_conv)
qed

lemma matchLongDecimal_unfold:
  "matchLongDecimal s =
     (let ip = takeWhile isDigit s; r1 = dropWhile isDigit s in
      if ip = [] then None
      else case r1 of
        [] \<Rightarrow> None
      | c # r2 \<Rightarrow>
          if c \<noteq> DOT then None
          else let fp = takeWhile isDigit r2 in
            if 7 \<le> length fp
            then Some (ip @ [DOT] @ take 6 fp, length ip + 1 + length fp)
            else None)"
proof (cases "takeWhile isDigit s = []")
  case True
  then show ?thesis by (simp add: matchLongDecimal_def execGroup_def ends_group_long)
next
  case ne: False
  show ?thesis
  proof (cases "dropWhile isDigit s")
    case Nil
    then show ?thesis using ne
      by (simp add: matchLongDecimal_def execGroup_def ends_group_long Let_def del: dropWhile_eq_Nil_conv)
  next
    case (Cons c r2)
    define ip where "ip = takeWhile isDigit s"
    define fp where "fp = takeWhile isDigit r2"
    have s: "s = ip @ c # r2" unfolding ip_def using Cons by (metis takeWhile_dropWhile_id)
    show ?thesis
    proof (cases "c = DOT \<and> 6 \<le> length fp")
      case False
      then show ?thesis using ne Cons
        by (auto simp add: matchLongDecimal_def execGroup_def ends_group_long Let_def fp_def
            simp del: dropWhile_eq_Nil_conv)
    next
      case True
      have g: "ends (Then (OneOrMore isDigit) (Then (OneOf (\<lambda>c. c = DOT)) (Exactly 6 isDigit))) s = [length ip + 7]"
        using ne Cons True by (simp add: ends_group_long ip_def fp_def del: dropWhile_eq_Nil_conv)
      have dr: "drop (length ip + 7) s = drop 6 r2" unfolding s by simp
      have tw: "takeWhile isDigit (drop 6 r2) = drop 6 fp"
        unfolding fp_def using True by (intro takeWhile_drop) (simp add: fp_def)
      have tk: "take (length ip + 7) s = ip @ DOT # take 6 fp"
      proof -
        have "r2 = fp @ dropWhile isDigit r2" by (simp add: fp_def)
        then have "take 6 r2 = take 6 fp" using True by (metis append_eq_conv_conj take_append take_take min.absorb1 diff_is_0_eq take0 append_Nil2)
        then show ?thesis unfolding s using True by simp
      qed
      have e: "ends (OneOrMore isDigit) (drop (length ip + 7) s) = rev [1..<Suc (length fp - 6)]"
        by (simp add: ends_run dr tw del: upt_Suc)
      show ?thesis
      proof (cases "7 \<le> length fp")
        case False
        with True have "length fp = 6" by simp
        then show ?thesis using ne Cons True
          by (simp add: matchLongDecimal_def execGroup_def g e Let_def fp_def[symmetric] ip_def[symmetric]
              del: dropWhile_eq_Nil_conv upt_Suc)
      next
        case l7: True
        then obtain m where m: "length fp - 6 = Suc m" by (cases "length fp - 6") auto
        have "rev [1..<Suc (Suc m)] = Suc m # rev [1..<Suc m]" by simp
        then have "execGroup (Then (OneOrMore isDigit) (Then (OneOf (\<lambda>c. c = DOT)) (Exactly 6 isDigit))) (OneOrMore isDigit) s
              = Some (take (length ip + 7) s, length ip + 7 + Suc m)"
          unfolding execGroup_def g by (simp add: e m del: upt_Suc)
        moreover have "length ip + 7 + Suc m = length ip + 1 + length fp" using m l7 by simp
        ultimately show ?thesis using ne Cons True l7
          by (simp add: matchLongDecimal_def tk Let_def fp_def[symmetric] ip_def[symmetric]
              del: dropWhile_eq_Nil_conv)
      qed
    qed
  qed
qed


lemma rev_upt_Suc: "0 < X \<Longrightarrow> rev [1..<Suc X] = X # rev [1..<X]"
  by (cases X) auto

lemma ends_exponent:
  "ends (Then (OneOf (\<lambda>c. c = LOWER_E \<or> c = UPPER_E))
           (Then (Optional (OneOf (\<lambda>c. c = PLUS \<or> c = MINUS))) (OneOrMore isDigit))) r3 =
     (case r3 of
        [] \<Rightarrow> []
      | e # r4 \<Rightarrow>
          if e = LOWER_E \<or> e = UPPER_E
          then map (\<lambda>k. 1 + length (optSign r4) + k)
                 (rev [1..<Suc (length (takeWhile isDigit (drop (length (optSign r4)) r4)))])
          else [])"
proof (cases r3)
  case Nil
  then show ?thesis by (simp add: ends_unit_then)
next
  case (Cons e r4)
  have "ends (Then (Optional (OneOf (\<lambda>c. c = PLUS \<or> c = MINUS))) (OneOrMore isDigit)) r4
        = map (\<lambda>k. length (optSign r4) + k)
            (rev [1..<Suc (length (takeWhile isDigit (drop (length (optSign r4)) r4)))])"
  proof (cases r4)
    case Nil
    then show ?thesis by (simp add: ends_optional_then ends_run optSign_def)
  next
    case c: (Cons c r)
    show ?thesis
    proof (cases "c = PLUS \<or> c = MINUS")
      case True
      then have "\<not> isDigit c" using not_digit(4,5) by auto
      then have "ends (OneOrMore isDigit) (c # r) = []" by (simp add: ends_run)
      then show ?thesis using True c
        by (simp add: ends_optional_then ends_run optSign_def del: upt_Suc)
    next
      case False
      then show ?thesis using c
        by (simp add: ends_optional_then ends_run optSign_def map_add_0 del: upt_Suc)
    qed
  qed
  then show ?thesis using Cons by (simp add: ends_unit_then del: upt_Suc)
qed

lemma ends_group_sci:
  "ends (Then (OneOrMore isDigit) (Then (OneOf (\<lambda>c. c = DOT)) (OneOrMore isDigit))) s =
     (if takeWhile isDigit s = [] then []
      else case dropWhile isDigit s of
        [] \<Rightarrow> []
      | c # r2 \<Rightarrow> if c = DOT
                  then map (\<lambda>j. length (takeWhile isDigit s) + 1 + j)
                         (rev [1..<Suc (length (takeWhile isDigit r2))])
                  else [])"
proof -
  have "ends (Then (OneOf (\<lambda>c. c = DOT)) (OneOrMore isDigit)) (c # cs) = []" if "isDigit c" for c cs
    using that not_digit(1) by (auto simp: ends_unit_then)
  note step = ends_run_then [of isDigit "Then (OneOf (\<lambda>c. c = DOT)) (OneOrMore isDigit)", OF this]
  show ?thesis
    by (cases "dropWhile isDigit s")
       (simp_all add: step ends_unit_then ends_run del: dropWhile_eq_Nil_conv upt_Suc)
qed

lemma execGroup_sci:
  "execGroup
     (Then (OneOrMore isDigit) (Then (OneOf (\<lambda>c. c = DOT)) (OneOrMore isDigit)))
     (Then (OneOf (\<lambda>c. c = LOWER_E \<or> c = UPPER_E))
        (Then (Optional (OneOf (\<lambda>c. c = PLUS \<or> c = MINUS))) (OneOrMore isDigit)))
     s =
     (let ip = takeWhile isDigit s; r1 = dropWhile isDigit s in
      if ip = [] then None
      else case r1 of
        [] \<Rightarrow> None
      | c # r2 \<Rightarrow>
          if c \<noteq> DOT then None
          else let fp = takeWhile isDigit r2; r3 = dropWhile isDigit r2 in
            if fp = [] then None
            else case r3 of
              [] \<Rightarrow> None
            | e # r4 \<Rightarrow>
                if e \<noteq> LOWER_E \<and> e \<noteq> UPPER_E then None
                else let sg = optSign r4;
                         ex = takeWhile isDigit (drop (length sg) r4) in
                  if ex = [] then None
                  else Some (ip @ [DOT] @ fp, length ip + 1 + length fp + 1 + length sg + length ex))"
  (is "execGroup ?g ?r s = ?rhs")
proof (cases "takeWhile isDigit s = []")
  case True
  then show ?thesis by (simp add: execGroup_def ends_group_sci)
next
  case ne: False
  show ?thesis
  proof (cases "dropWhile isDigit s")
    case Nil
    then show ?thesis using ne
      by (simp add: execGroup_def ends_group_sci Let_def del: dropWhile_eq_Nil_conv)
  next
    case (Cons c r2)
    define ip where "ip = takeWhile isDigit s"
    define fp where "fp = takeWhile isDigit r2"
    define r3 where "r3 = dropWhile isDigit r2"
    have s: "s = ip @ c # fp @ r3" unfolding ip_def fp_def r3_def using Cons
      by (metis takeWhile_dropWhile_id)
    show ?thesis
    proof (cases "c = DOT \<and> fp \<noteq> []")
      case False
      then show ?thesis using ne Cons
        by (auto simp add: execGroup_def ends_group_sci Let_def fp_def simp del: dropWhile_eq_Nil_conv)
    next
      case True
      define M where "M = length fp"
      from True have M: "0 < M" by (simp add: M_def)
      have "ends ?g s = map (\<lambda>j. length ip + 1 + j) (rev [1..<Suc M])"
        using ne Cons True
        by (simp add: ends_group_sci ip_def[symmetric] fp_def[symmetric] M_def[symmetric]
            del: dropWhile_eq_Nil_conv upt_Suc)
      then have g: "ends ?g s = (length ip + 1 + M) # map (\<lambda>j. length ip + 1 + j) (rev [1..<M])"
        unfolding rev_upt_Suc [OF M] by simp
      have z: "map (Pair n) (ends ?r (drop n s)) = []"
        if "n \<in> set (map (\<lambda>j. length ip + 1 + j) (rev [1..<M]))" for n
      proof -
        from that obtain j where j: "n = length ip + 1 + j" "j < M" by auto
        have "drop n s = drop j fp @ r3" unfolding s j using j(2) by (simp add: M_def)
        moreover from j(2) obtain d ds where d: "drop j fp = d # ds"
          by (cases "drop j fp") (auto simp: M_def)
        moreover have "d \<in> set fp" using d by (metis in_set_dropD list.set_intros(1))
        then have "isDigit d" unfolding fp_def by (auto dest: set_takeWhileD)
        then have "d \<noteq> LOWER_E" "d \<noteq> UPPER_E" using not_digit(2,3) by auto
        ultimately show ?thesis by (simp add: ends_unit_then)
      qed
      have dr: "drop (length ip + 1 + M) s = r3" unfolding s M_def by simp
      have "concat (map (\<lambda>n. map (Pair n) (ends ?r (drop n s)))
                      ((length ip + 1 + M) # map (\<lambda>j. length ip + 1 + j) (rev [1..<M])))
            = map (Pair (length ip + 1 + M)) (ends ?r (drop (length ip + 1 + M) s))"
        by (rule concat_first_only) (rule z)
      then have L: "concat (map (\<lambda>n. map (Pair n) (ends ?r (drop n s))) (ends ?g s))
               = map (Pair (length ip + 1 + M)) (ends ?r r3)"
        by (simp only: g dr)
      have tk: "take (Suc (length ip + length fp)) s = ip @ DOT # fp" unfolding s using True by simp
      show ?thesis
      proof (cases r3)
        case Nil
        then show ?thesis using ne Cons True
          unfolding execGroup_def L
          by (simp add: ends_unit_then Let_def fp_def[symmetric] r3_def[symmetric]
              del: dropWhile_eq_Nil_conv)
      next
        case r3: (Cons e r4)
        show ?thesis
        proof (cases "e = LOWER_E \<or> e = UPPER_E")
          case False
          then show ?thesis using ne Cons True r3
            unfolding execGroup_def L
            by (simp add: ends_unit_then Let_def fp_def[symmetric] r3_def[symmetric]
                del: dropWhile_eq_Nil_conv)
        next
          case e: True
          define sg where "sg = optSign r4"
          define ex where "ex = takeWhile isDigit (drop (length sg) r4)"
          have er: "ends ?r r3 = map (\<lambda>k. 1 + length sg + k) (rev [1..<Suc (length ex)])"
            using e r3 by (simp add: ends_exponent sg_def ex_def del: upt_Suc)
          show ?thesis
          proof (cases "ex = []")
            case True
            then have "ends ?r r3 = []" using er by simp
            then show ?thesis using ne Cons \<open>c = DOT \<and> fp \<noteq> []\<close> r3 e True
              unfolding execGroup_def L
              by (auto simp add: Let_def fp_def[symmetric] r3_def[symmetric] sg_def[symmetric] ex_def[symmetric]
                  simp del: dropWhile_eq_Nil_conv)
          next
            case False
            then have "rev [1..<Suc (length ex)] = length ex # rev [1..<length ex]"
              by (intro rev_upt_Suc) simp
            then have "execGroup ?g ?r s = Some (take (length ip + 1 + M) s, length ip + 1 + M + (1 + length sg + length ex))"
              unfolding execGroup_def L er by simp
            then show ?thesis using ne Cons \<open>c = DOT \<and> fp \<noteq> []\<close> r3 e False
              by (auto simp add: tk M_def Let_def ip_def[symmetric] fp_def[symmetric] r3_def[symmetric]
                  sg_def[symmetric] ex_def[symmetric] simp del: dropWhile_eq_Nil_conv)
          qed
        qed
      qed
    qed
  qed
qed

lemma matchSciNotation_unfold:
  "matchSciNotation s =
     (let ip = takeWhile isDigit s; r1 = dropWhile isDigit s in
      if ip = [] then None
      else case r1 of
        [] \<Rightarrow> None
      | c # r2 \<Rightarrow>
          if c \<noteq> DOT then None
          else let fp = takeWhile isDigit r2; r3 = dropWhile isDigit r2 in
            if fp = [] then None
            else case r3 of
              [] \<Rightarrow> None
            | e # r4 \<Rightarrow>
                if e \<noteq> LOWER_E \<and> e \<noteq> UPPER_E then None
                else let sg = optSign r4;
                         ex = takeWhile isDigit (drop (length sg) r4) in
                  if ex = [] then None
                  else let numberPart = ip @ [DOT] @ fp;
                           dotIndex = indexOf numberPart DOT in
                    Some (if dotIndex \<noteq> -1 then substring numberPart 0 (dotIndex + 3) else numberPart,
                          length ip + 1 + length fp + 1 + length sg + length ex))"
  unfolding matchSciNotation_def execGroup_sci
  by (simp add: Let_def split: list.splits del: dropWhile_eq_Nil_conv)

section \<open>Evaluation on concrete texts\<close>

lemmas codeunit_defs =
  BACKTICK_def LBRACE_def RBRACE_def DOT_def PLUS_def MINUS_def LOWER_E_def UPPER_E_def
  QUOTE_def BACKSLASH_def COMMA_def COLON_def LBRACKET_def RBRACKET_def

lemmas cleanJson_eval =
  optSign_def utf16_def codeunit_defs isDigit_def isWhiteSpace_def substring_def trim_def
  matchLit_def matchLongDecimal_unfold matchSciNotation_unfold stripFences_def extractSpan_def
  truncateDecimals_def dropExponents_def normalizeNumbers_def cleanJson_def Let_def

lemmas JSON_parse_eval =
  isJsonWs_def skipWs_def digitVal_def digitsVal_def parseNumber_def isHexDigit_def hexVal_def
  escapeOf_def JSON_parse_def JSON_parse_reviver_def jsonReviver_def Math_round_def

section \<open>Facts about global replacement\<close>

lemma replaceG_subseq:
  assumes "\<And>s r n. m s = Some (r, n) \<Longrightarrow> 0 < n \<and> subseq r (take n s)"
  shows "subseq (replaceG m s) s"
proof (induction s rule: length_induct)
  case (1 s)
  show ?case
  proof (cases s)
    case Nil
    then show ?thesis by simp
  next
  case (Cons c cs)
  have 2: "\<And>k. subseq (replaceG m (drop k cs)) (drop k cs)" using 1 Cons by simp
  show ?thesis
  proof (cases "m (c # cs)")
    case None
    with 2[of 0] show ?thesis using Cons by simp
  next
    case (Some p)
    obtain r n where p: "p = (r, n)" by (cases p)
    from assms[of "c # cs" r n] Some p have n: "0 < n" and r: "subseq r (take n (c # cs))" by auto
    from 2 have ih: "subseq (replaceG m (drop (n - 1) cs)) (drop (n - 1) cs)" .
    from n have d: "drop (n - 1) cs = drop n (c # cs)" by (cases n) auto
    have "subseq (r @ replaceG m (drop (n - 1) cs)) (take n (c # cs) @ drop n (c # cs))"
      using r ih unfolding d by (rule list_emb_append_mono)
    then show ?thesis using Some p Cons by simp
  qed
  qed
qed


lemma replaceG_append_left:
  assumes L1: "\<And>s. m s = m (takeWhile K s)"
    and L2: "\<And>s r n. m s = Some (r, n) \<Longrightarrow> 0 < n \<and> n \<le> length (takeWhile K s)"
    and u: "u = [] \<or> \<not> K (last u)"
  shows "replaceG m (u @ w) = replaceG m u @ replaceG m w"
  using u
proof (induction u rule: length_induct)
  case (1 u)
  show ?case
  proof (cases u)
    case Nil
    then show ?thesis by simp
  next
    case (Cons c cs)
    with 1(2) have nk: "\<not> K (last (c # cs))" by simp
    then have ex: "\<exists>x\<in>set (c # cs). \<not> K x" using last_in_set[of "c # cs"] by blast
    then have tw: "takeWhile K ((c # cs) @ w) = takeWhile K (c # cs)"
      by (metis takeWhile_append1)
    have meq: "m ((c # cs) @ w) = m (c # cs)"
      using L1[of "(c # cs) @ w"] L1[of "c # cs"] tw by simp
    have twl: "length (takeWhile K (c # cs)) \<le> length cs"
    proof -
      have "takeWhile K (c # cs) \<noteq> c # cs" using ex by (metis takeWhile_eq_all_conv)
      moreover have "length (takeWhile K (c # cs)) \<le> length (c # cs)" by (rule length_takeWhile_le)
      ultimately show ?thesis
        by (metis append_eq_conv_conj le_SucE length_Cons order_refl take_all takeWhile_dropWhile_id)
    qed
    show ?thesis
    proof (cases "m (c # cs)")
      case None
      have cs: "cs = [] \<or> \<not> K (last cs)" using nk by (cases cs) auto
      have "length cs < length u" using Cons by simp
      with 1(1) cs have "replaceG m (cs @ w) = replaceG m cs @ replaceG m w"
        by blast
      with None meq show ?thesis using Cons by simp
    next
      case (Some p)
      obtain r n where p: "p = (r, n)" by (cases p)
      from L2[of "c # cs" r n] Some p have n: "0 < n" "n \<le> length (takeWhile K (c # cs))" by auto
      with twl have nl: "n - 1 < length cs" by simp
      then have dr: "drop (n - 1) (cs @ w) = drop (n - 1) cs @ w" by simp
      have ne: "drop (n - 1) cs \<noteq> []" using nl by simp
      have "last (drop (n - 1) cs) = last (c # cs)" using nl ne by (cases cs) auto
      with nk have c2: "drop (n - 1) cs = [] \<or> \<not> K (last (drop (n - 1) cs))" by simp
      have "length (drop (n - 1) cs) < length u" using Cons by simp
      with 1(1) c2 have "replaceG m (drop (n - 1) cs @ w) = replaceG m (drop (n - 1) cs) @ replaceG m w"
        by blast
      with Some p meq dr show ?thesis using Cons by simp
    qed
  qed
qed

lemma replaceG_append_right:
  assumes L1: "\<And>s. m s = m (takeWhile K s)"
    and L2: "\<And>s r n. m s = Some (r, n) \<Longrightarrow> 0 < n \<and> n \<le> length (takeWhile K s)"
    and w: "w = [] \<or> \<not> K (hd w)"
  shows "replaceG m (u @ w) = replaceG m u @ replaceG m w"
proof (induction u rule: length_induct)
  case (1 u)
  show ?case
  proof (cases u)
    case Nil
    then show ?thesis by simp
  next
    case (Cons c cs)
    have tww: "takeWhile K w = []" using w by (cases w) auto
    have tw: "takeWhile K ((c # cs) @ w) = takeWhile K (c # cs)"
    proof (cases "\<forall>x\<in>set (c # cs). K x")
      case True
      then have "takeWhile K ((c # cs) @ w) = (c # cs) @ takeWhile K w"
        by (intro takeWhile_append2) auto
      moreover have "takeWhile K (c # cs) = c # cs" using True by (simp add: takeWhile_eq_all_conv)
      ultimately show ?thesis using tww by simp
    next
      case False
      then show ?thesis by (metis takeWhile_append1)
    qed
    have meq: "m ((c # cs) @ w) = m (c # cs)"
      using L1[of "(c # cs) @ w"] L1[of "c # cs"] tw by simp
    show ?thesis
    proof (cases "m (c # cs)")
      case None
      have "replaceG m (cs @ w) = replaceG m cs @ replaceG m w"
        using 1 Cons by simp
      with None meq show ?thesis using Cons by simp
    next
      case (Some p)
      obtain r n where p: "p = (r, n)" by (cases p)
      from L2[of "c # cs" r n] Some p have n: "0 < n" "n \<le> length (takeWhile K (c # cs))" by auto
      have "length (takeWhile K (c # cs)) \<le> length (c # cs)" by (rule length_takeWhile_le)
      with n have nl: "n - 1 \<le> length cs" by simp
      then have dr: "drop (n - 1) (cs @ w) = drop (n - 1) cs @ w" by simp
      have "length (drop (n - 1) cs) < length u" using Cons by simp
      with 1 have "replaceG m (drop (n - 1) cs @ w) = replaceG m (drop (n - 1) cs) @ replaceG m w"
        by blast
      with Some p meq dr show ?thesis using Cons by simp
    qed
  qed
qed

lemma replaceG_no_match:
  assumes "\<And>k. k < length s \<Longrightarrow> m (drop k s) = None"
  shows "replaceG m s = s"
  using assms
proof (induction s)
  case Nil
  show ?case by simp
next
  case (Cons c cs)
  from Cons(2)[of 0] have "m (c # cs) = None" by simp
  moreover have "replaceG m cs = cs"
  proof (rule Cons(1))
    fix k assume "k < length cs"
    then show "m (drop k cs) = None" using Cons(2)[of "Suc k"] by simp
  qed
  ultimately show ?case by simp
qed




lemma cu_distinct [simp]:
  "DOT \<noteq> LOWER_E" "DOT \<noteq> UPPER_E" "DOT \<noteq> PLUS" "DOT \<noteq> MINUS"
  "LOWER_E \<noteq> DOT" "UPPER_E \<noteq> DOT" "PLUS \<noteq> DOT" "MINUS \<noteq> DOT"
  "PLUS \<noteq> LOWER_E" "PLUS \<noteq> UPPER_E" "MINUS \<noteq> LOWER_E" "MINUS \<noteq> UPPER_E" "PLUS \<noteq> MINUS"
  "LOWER_E \<noteq> PLUS" "UPPER_E \<noteq> PLUS" "LOWER_E \<noteq> MINUS" "UPPER_E \<noteq> MINUS" "MINUS \<noteq> PLUS"
  "LOWER_E \<noteq> UPPER_E" "UPPER_E \<noteq> LOWER_E"
  by (simp_all add: DOT_def LOWER_E_def UPPER_E_def PLUS_def MINUS_def)

lemma isNumberChar_simps [simp]:
  "isNumberChar DOT" "isNumberChar LOWER_E" "isNumberChar UPPER_E" "isNumberChar PLUS" "isNumberChar MINUS"
  "isDigit c \<Longrightarrow> isNumberChar c"
  by (simp_all add: isNumberChar_def)

lemma takeWhile_takeWhile_sub:
  "(\<And>x. P x \<Longrightarrow> K x) \<Longrightarrow> takeWhile P (takeWhile K s) = takeWhile P s"
  by (induction s) auto

lemma dropWhile_takeWhile_sub:
  "(\<And>x. P x \<Longrightarrow> K x) \<Longrightarrow> dropWhile P (takeWhile K s) = takeWhile K (dropWhile P s)"
  by (induction s) auto

lemma tw_digit_num [simp]: "takeWhile isDigit (takeWhile isNumberChar s) = takeWhile isDigit s"
  by (rule takeWhile_takeWhile_sub) simp

lemma dw_digit_num [simp]: "dropWhile isDigit (takeWhile isNumberChar s) = takeWhile isNumberChar (dropWhile isDigit s)"
  by (rule dropWhile_takeWhile_sub) simp


lemma tw_num_Cons_DOT [simp]: "takeWhile isNumberChar (DOT # r) = DOT # takeWhile isNumberChar r"
  by simp

lemma matchLongDecimal_local:
  "matchLongDecimal s = matchLongDecimal (takeWhile isNumberChar s)"
proof (cases "dropWhile isDigit s")
  case Nil
  then show ?thesis by (simp add: matchLongDecimal_unfold Let_def del: dropWhile_eq_Nil_conv)
next
  case (Cons c r2)
  show ?thesis
  proof (cases "c = DOT")
    case True
    with Cons show ?thesis by (simp add: matchLongDecimal_unfold Let_def del: dropWhile_eq_Nil_conv)
  next
    case False
    with Cons show ?thesis by (simp add: matchLongDecimal_unfold Let_def del: dropWhile_eq_Nil_conv)
  qed
qed

lemma sign_local: "optSign (takeWhile isNumberChar r) = optSign r"
  by (cases r) (auto simp: optSign_def)

lemma exp_local:
  "takeWhile isDigit (drop (length (optSign r)) (takeWhile isNumberChar r))
   = takeWhile isDigit (drop (length (optSign r)) r)"
  by (cases r) (auto simp: optSign_def)

lemma matchSciNotation_local:
  "matchSciNotation s = matchSciNotation (takeWhile isNumberChar s)"
proof (cases "dropWhile isDigit s")
  case Nil
  then show ?thesis by (simp add: matchSciNotation_unfold Let_def del: dropWhile_eq_Nil_conv)
next
  case (Cons c r2)
  note r1 = Cons
  show ?thesis
  proof (cases "c = DOT")
    case False
    with r1 show ?thesis by (simp add: matchSciNotation_unfold Let_def del: dropWhile_eq_Nil_conv)
  next
    case True
    note dot = True
    show ?thesis
    proof (cases "dropWhile isDigit r2")
      case Nil
      with r1 dot show ?thesis by (simp add: matchSciNotation_unfold Let_def del: dropWhile_eq_Nil_conv)
    next
      case (Cons e r4)
      show ?thesis
      proof (cases "e = LOWER_E \<or> e = UPPER_E")
        case False
        with r1 dot Cons show ?thesis by (simp add: matchSciNotation_unfold Let_def del: dropWhile_eq_Nil_conv)
      next
        case True
        then have "isNumberChar e" by auto
        with True r1 dot Cons show ?thesis
          by (auto simp add: matchSciNotation_unfold Let_def sign_local exp_local simp del: dropWhile_eq_Nil_conv)
      qed
    qed
  qed
qed



lemma takeWhile_stop: "rest = [] \<or> \<not> P (hd rest) \<Longrightarrow> takeWhile P rest = []"
  by (cases rest) auto

lemma dropWhile_stop: "rest = [] \<or> \<not> P (hd rest) \<Longrightarrow> dropWhile P rest = rest"
  by (cases rest) auto

lemma takeWhile_run:
  "\<forall>c\<in>set ds. P c \<Longrightarrow> rest = [] \<or> \<not> P (hd rest) \<Longrightarrow> takeWhile P (ds @ rest) = ds"
  by (induction ds) (simp_all add: takeWhile_stop)

lemma dropWhile_run:
  "\<forall>c\<in>set ds. P c \<Longrightarrow> rest = [] \<or> \<not> P (hd rest) \<Longrightarrow> dropWhile P (ds @ rest) = rest"
  by (induction ds) (simp_all add: dropWhile_stop)

lemma dropWhile_hd: "dropWhile P s = [] \<or> \<not> P (hd (dropWhile P s))"
  by (metis hd_dropWhile)

lemma indexOf_run: "c \<notin> set ds \<Longrightarrow> indexOf (ds @ c # rest) c = int (length ds)"
  by (induction ds) (auto simp: Let_def)

lemma substring_prefix: "substring (xs @ ys) 0 (int (length xs) + int k) = xs @ take k ys"
proof -
  have "nat (int (length xs) + int k) = length xs + k" by simp
  then show ?thesis
    by (auto simp add: substring_def Let_def min_def max_def simp del: of_nat_add)
qed

lemma matchLongDecimal_eval:
  assumes "ip \<noteq> []" "\<forall>c\<in>set ip. isDigit c" "\<forall>c\<in>set fp. isDigit c" "rest = [] \<or> \<not> isDigit (hd rest)"
  shows "matchLongDecimal (ip @ DOT # fp @ rest) =
           (if 7 \<le> length fp then Some (ip @ DOT # take 6 fp, length ip + 1 + length fp) else None)"
proof -
  have 1: "takeWhile isDigit (ip @ DOT # fp @ rest) = ip"
    using assms(2) by (intro takeWhile_run) auto
  have 2: "dropWhile isDigit (ip @ DOT # fp @ rest) = DOT # fp @ rest"
    using assms(2) by (intro dropWhile_run) auto
  have 3: "takeWhile isDigit (fp @ rest) = fp"
    using assms(3,4) by (intro takeWhile_run) auto
  show ?thesis
    unfolding matchLongDecimal_unfold Let_def 1 2 using assms(1) by (simp add: 3)
qed

lemma matchLongDecimal_SomeD:
  assumes "matchLongDecimal s = Some (r, n)"
  shows "\<exists>ip fp rest. s = ip @ DOT # fp @ rest \<and> ip \<noteq> [] \<and> (\<forall>c\<in>set ip. isDigit c) \<and>
           (\<forall>c\<in>set fp. isDigit c) \<and> 7 \<le> length fp \<and> (rest = [] \<or> \<not> isDigit (hd rest)) \<and>
           r = ip @ DOT # take 6 fp \<and> n = length ip + 1 + length fp"
proof -
  define ip where "ip = takeWhile isDigit s"
  define r1 where "r1 = dropWhile isDigit s"
  have s: "s = ip @ r1" by (simp add: ip_def r1_def)
  from assms have ne: "ip \<noteq> []"
    by (auto simp: matchLongDecimal_unfold Let_def ip_def split: if_splits)
  from assms obtain r2 where r1: "r1 = DOT # r2"
    by (auto simp: matchLongDecimal_unfold Let_def r1_def split: if_splits list.splits)
  define fp where "fp = takeWhile isDigit r2"
  define rest where "rest = dropWhile isDigit r2"
  have r2: "r2 = fp @ rest" by (simp add: fp_def rest_def)
  from assms ne r1 have res: "7 \<le> length fp" "r = ip @ DOT # take 6 fp" "n = length ip + 1 + length fp"
    by (auto simp: matchLongDecimal_unfold Let_def r1_def[symmetric] ip_def[symmetric] fp_def[symmetric] split: if_splits)
  have "\<forall>c\<in>set ip. isDigit c" unfolding ip_def by (metis set_takeWhileD)
  moreover have "\<forall>c\<in>set fp. isDigit c" unfolding fp_def by (metis set_takeWhileD)
  moreover have "rest = [] \<or> \<not> isDigit (hd rest)" unfolding rest_def by (rule dropWhile_hd)
  ultimately show ?thesis using s r1 r2 ne res by blast
qed


lemma matchSciNotation_eval:
  assumes "ip \<noteq> []" "\<forall>c\<in>set ip. isDigit c" "fp \<noteq> []" "\<forall>c\<in>set fp. isDigit c"
    "e = LOWER_E \<or> e = UPPER_E" "sg = [] \<or> sg = [PLUS] \<or> sg = [MINUS]"
    "ex \<noteq> []" "\<forall>c\<in>set ex. isDigit c" "rest = [] \<or> \<not> isDigit (hd rest)"
  shows "matchSciNotation (ip @ DOT # fp @ e # sg @ ex @ rest) =
           Some (ip @ DOT # take 2 fp, length ip + 1 + length fp + 1 + length sg + length ex)"
proof -
  have ne: "\<not> isDigit e" using assms(5) by auto
  have 1: "takeWhile isDigit (ip @ DOT # fp @ e # sg @ ex @ rest) = ip"
    using assms(2) by (intro takeWhile_run) auto
  have 2: "dropWhile isDigit (ip @ DOT # fp @ e # sg @ ex @ rest) = DOT # fp @ e # sg @ ex @ rest"
    using assms(2) by (intro dropWhile_run) auto
  have 3: "takeWhile isDigit (fp @ e # sg @ ex @ rest) = fp"
    using assms(4) ne by (intro takeWhile_run) auto
  have 4: "dropWhile isDigit (fp @ e # sg @ ex @ rest) = e # sg @ ex @ rest"
    using assms(4) ne by (intro dropWhile_run) auto
  have hd_ex: "isDigit (hd ex)" using assms(7,8) by (cases ex) auto
  have 5: "optSign (sg @ ex @ rest) = sg"
    using assms(6,7) hd_ex by (cases ex) (auto simp: optSign_def)
  have 6: "takeWhile isDigit (ex @ rest) = ex"
    using assms(8,9) by (intro takeWhile_run) auto
  have 7: "indexOf (ip @ DOT # fp) DOT = int (length ip)"
  proof -
    have "DOT \<notin> set ip" using assms(2) by auto
    then show ?thesis using indexOf_run[of DOT ip fp] by simp
  qed
  have 8: "substring (ip @ DOT # fp) 0 (int (length ip) + 3) = ip @ DOT # take 2 fp"
    using substring_prefix[of ip "DOT # fp" 3] by (simp add: numeral_3_eq_3 numeral_2_eq_2)
  show ?thesis
    unfolding matchSciNotation_unfold Let_def 1 2 3 4 5 list.case
    using assms(1,3,7) ne assms(5) by (auto simp: 6 7 8)
qed

lemma matchSciNotation_SomeD:
  assumes "matchSciNotation s = Some (r, n)"
  shows "\<exists>ip fp e sg ex rest. s = ip @ DOT # fp @ e # sg @ ex @ rest \<and>
           ip \<noteq> [] \<and> (\<forall>c\<in>set ip. isDigit c) \<and> fp \<noteq> [] \<and> (\<forall>c\<in>set fp. isDigit c) \<and>
           (e = LOWER_E \<or> e = UPPER_E) \<and> (sg = [] \<or> sg = [PLUS] \<or> sg = [MINUS]) \<and>
           ex \<noteq> [] \<and> (\<forall>c\<in>set ex. isDigit c) \<and> (rest = [] \<or> \<not> isDigit (hd rest)) \<and>
           r = ip @ DOT # take 2 fp \<and> n = length ip + 1 + length fp + 1 + length sg + length ex"
proof -
  define ip where "ip = takeWhile isDigit s"
  define r1 where "r1 = dropWhile isDigit s"
  have s: "s = ip @ r1" by (simp add: ip_def r1_def)
  from assms have ne: "ip \<noteq> []"
    by (auto simp: matchSciNotation_unfold Let_def ip_def split: if_splits)
  from assms obtain r2 where r1: "r1 = DOT # r2"
    by (auto simp: matchSciNotation_unfold Let_def r1_def split: if_splits list.splits)
  define fp where "fp = takeWhile isDigit r2"
  define r3 where "r3 = dropWhile isDigit r2"
  have r2: "r2 = fp @ r3" by (simp add: fp_def r3_def)
  note unf = matchSciNotation_unfold Let_def r1_def[symmetric] ip_def[symmetric] fp_def[symmetric] r3_def[symmetric]
  from assms ne r1 have fne: "fp \<noteq> []"
    by (auto simp: unf split: if_splits)
  from assms ne r1 fne obtain e r4 where r3: "r3 = e # r4" and e: "e = LOWER_E \<or> e = UPPER_E"
    by (auto simp: unf split: if_splits list.splits)
  define sg where "sg = optSign r4"
  define ex where "ex = takeWhile isDigit (drop (length sg) r4)"
  define rest where "rest = dropWhile isDigit (drop (length sg) r4)"
  have sg: "sg = [] \<or> sg = [PLUS] \<or> sg = [MINUS]" unfolding sg_def by (cases r4) (auto simp: optSign_def)
  have "r4 = sg @ drop (length sg) r4" unfolding sg_def by (cases r4) (auto simp: optSign_def)
  then have r4: "r4 = sg @ ex @ rest" by (simp add: ex_def rest_def)
  from assms ne r1 fne r3 e have exne: "ex \<noteq> []"
    by (auto simp: unf sg_def[symmetric] ex_def[symmetric] split: if_splits)
  have dig: "\<forall>c\<in>set ip. isDigit c" "\<forall>c\<in>set fp. isDigit c" "\<forall>c\<in>set ex. isDigit c"
    unfolding ip_def fp_def ex_def by (metis set_takeWhileD)+
  have rst: "rest = [] \<or> \<not> isDigit (hd rest)" unfolding rest_def by (rule dropWhile_hd)
  have shape: "s = ip @ DOT # fp @ e # sg @ ex @ rest" using s r1 r2 r3 r4 by simp
  from matchSciNotation_eval[OF ne dig(1) fne dig(2) e sg exne dig(3) rst] assms shape
  have "r = ip @ DOT # take 2 fp \<and> n = length ip + 1 + length fp + 1 + length sg + length ex"
    by simp
  then show ?thesis using shape ne dig fne e sg exne rst by blast
qed

section \<open>The brace span\<close>

lemma indexOf_ge: "indexOf s c \<ge> -1"
  by (induction s) (auto simp: Let_def)

lemma indexOf_absent: "indexOf s c = -1 \<longleftrightarrow> c \<notin> set s"
proof (induction s)
  case Nil
  show ?case by simp
next
  case (Cons x xs)
  have "indexOf xs c \<ge> -1" by (rule indexOf_ge)
  with Cons show ?case by (auto simp: Let_def)
qed

lemma indexOf_split:
  "c \<notin> set pre \<Longrightarrow> indexOf (pre @ c # post) c = int (length pre)"
  by (induction pre) (auto simp: Let_def)

lemma lastIndexOf_ge: "lastIndexOf s c \<ge> -1"
  by (induction s) (auto simp: Let_def)

lemma lastIndexOf_absent: "lastIndexOf s c = -1 \<longleftrightarrow> c \<notin> set s"
proof (induction s)
  case Nil
  show ?case by simp
next
  case (Cons x xs)
  have "lastIndexOf xs c \<ge> -1" by (rule lastIndexOf_ge)
  with Cons show ?case by (auto simp: Let_def)
qed

lemma lastIndexOf_split:
  "c \<notin> set post \<Longrightarrow> lastIndexOf (pre @ c # post) c = int (length pre)"
proof (induction pre)
  case Nil
  then have "lastIndexOf post c = -1" by (simp add: lastIndexOf_absent)
  then show ?case by (simp add: Let_def)
next
  case (Cons x pre)
  then show ?case by (simp add: Let_def)
qed

lemma substring_middle:
  "substring (pre @ mid @ post) (int (length pre)) (int (length pre) + int (length mid)) = mid"
proof -
  let ?n = "int (length (pre @ mid @ post))"
  let ?a = "int (length pre)" and ?b = "int (length pre) + int (length mid)"
  have a: "min (max ?a 0) ?n = ?a" by simp
  have b: "min (max ?b 0) ?n = ?b" by simp
  have lo: "min ?a ?b = ?a" by simp
  have hi: "max ?a ?b = ?b" by simp
  have "substring (pre @ mid @ post) ?a ?b = take (nat (?b - ?a)) (drop (nat ?a) (pre @ mid @ post))"
    unfolding substring_def Let_def a b lo hi ..
  then show ?thesis by simp
qed

lemma extractSpan_braces:
  assumes "LBRACE \<notin> set pre" "RBRACE \<notin> set post"
  shows "extractSpan (pre @ LBRACE # mid @ RBRACE # post) = LBRACE # mid @ [RBRACE]"
proof -
  let ?s = "pre @ LBRACE # mid @ RBRACE # post"
  have f: "indexOf ?s LBRACE = int (length pre)" using assms(1) by (rule indexOf_split)
  have "lastIndexOf ((pre @ LBRACE # mid) @ RBRACE # post) RBRACE = int (length (pre @ LBRACE # mid))"
    using assms(2) by (rule lastIndexOf_split)
  then have l: "lastIndexOf ?s RBRACE = int (length pre) + 1 + int (length mid)" by simp
  have "substring (pre @ (LBRACE # mid @ [RBRACE]) @ post) (int (length pre))
          (int (length pre) + int (length (LBRACE # mid @ [RBRACE]))) = LBRACE # mid @ [RBRACE]"
    by (rule substring_middle)
  then have "substring ?s (int (length pre)) (int (length pre) + 1 + int (length mid) + 1) = LBRACE # mid @ [RBRACE]"
    by (simp add: add.assoc)
  then show ?thesis by (simp add: extractSpan_def Let_def f l)
qed

lemma extractSpan_whole:
  assumes "\<forall>pre mid post. \<not> (s = pre @ LBRACE # mid @ RBRACE # post \<and>
             LBRACE \<notin> set pre \<and> RBRACE \<notin> set post)"
  shows "extractSpan s = s"
proof (rule ccontr)
  assume ne: "extractSpan s \<noteq> s"
  then have c: "indexOf s LBRACE \<noteq> -1" "lastIndexOf s RBRACE \<noteq> -1"
    "lastIndexOf s RBRACE > indexOf s LBRACE"
    by (auto simp: extractSpan_def Let_def split: if_splits)
  from c(1) have "LBRACE \<in> set s" by (simp add: indexOf_absent)
  then obtain pre r where s1: "s = pre @ LBRACE # r" and p: "LBRACE \<notin> set pre"
    by (meson split_list_first)
  from c(2) have "RBRACE \<in> set s" by (simp add: lastIndexOf_absent)
  then obtain q post where s2: "s = q @ RBRACE # post" and q: "RBRACE \<notin> set post"
    by (meson split_list_last)
  have i1: "indexOf s LBRACE = int (length pre)" unfolding s1 using p by (rule indexOf_split)
  have i2: "lastIndexOf s RBRACE = int (length q)" unfolding s2 using q by (rule lastIndexOf_split)
  from c(3) i1 i2 have lt: "length pre < length q" by simp
  have "pre @ LBRACE # r = q @ RBRACE # post" using s1 s2 by simp
  then obtain us where "q = pre @ us" "LBRACE # r = us @ RBRACE # post"
    using lt by (auto simp: append_eq_append_conv2)
  moreover from this lt obtain mid where "us = LBRACE # mid" by (cases us) auto
  ultimately have "s = pre @ LBRACE # mid @ RBRACE # post" using s2 by simp
  with assms p q show False by blast
qed

lemma not_ws_brace [simp]: "\<not> isWhiteSpace LBRACE" "\<not> isWhiteSpace RBRACE"
  by (simp_all add: isWhiteSpace_def LBRACE_def RBRACE_def)

lemma not_num_brace [simp]: "\<not> isNumberChar LBRACE" "\<not> isNumberChar RBRACE"
  by (simp_all add: isNumberChar_def isDigit_def codeunit_defs)

lemma trim_braced: "trim (LBRACE # mid @ [RBRACE]) = LBRACE # mid @ [RBRACE]"
  by (simp add: trim_def)

lemma matchLongDecimal_not_digit: "\<not> isDigit c \<Longrightarrow> matchLongDecimal (c # cs) = None"
  by (simp add: matchLongDecimal_unfold)

lemma matchSciNotation_not_digit: "\<not> isDigit c \<Longrightarrow> matchSciNotation (c # cs) = None"
  by (simp add: matchSciNotation_unfold)

lemma matchLongDecimal_bound:
  assumes "matchLongDecimal s = Some (r, n)"
  shows "0 < n \<and> n \<le> length (takeWhile isNumberChar s)"
proof -
  from matchLongDecimal_SomeD[OF assms] obtain ip fp rest where
    s: "s = ip @ DOT # fp @ rest" and d: "\<forall>c\<in>set ip. isDigit c" "\<forall>c\<in>set fp. isDigit c"
    and n: "n = length ip + 1 + length fp"
    by blast
  have "\<forall>c\<in>set (ip @ DOT # fp). isNumberChar c" using d by auto
  then have "takeWhile isNumberChar ((ip @ DOT # fp) @ rest) = (ip @ DOT # fp) @ takeWhile isNumberChar rest"
    by (intro takeWhile_append2) auto
  then have "length (takeWhile isNumberChar s) \<ge> length (ip @ DOT # fp)"
    unfolding s by simp
  with n show ?thesis by simp
qed

lemma matchSciNotation_bound:
  assumes "matchSciNotation s = Some (r, n)"
  shows "0 < n \<and> n \<le> length (takeWhile isNumberChar s)"
proof -
  from matchSciNotation_SomeD[OF assms] obtain ip fp e sg ex rest where
    s: "s = ip @ DOT # fp @ e # sg @ ex @ rest"
    and d: "\<forall>c\<in>set ip. isDigit c" "\<forall>c\<in>set fp. isDigit c" "\<forall>c\<in>set ex. isDigit c"
      "e = LOWER_E \<or> e = UPPER_E" "sg = [] \<or> sg = [PLUS] \<or> sg = [MINUS]"
    and n: "n = length ip + 1 + length fp + 1 + length sg + length ex"
    by blast
  let ?m = "ip @ DOT # fp @ e # sg @ ex"
  have "\<forall>c\<in>set ?m. isNumberChar c" using d by auto
  then have "takeWhile isNumberChar (?m @ rest) = ?m @ takeWhile isNumberChar rest"
    by (intro takeWhile_append2) auto
  then have "length (takeWhile isNumberChar s) \<ge> length ?m"
    unfolding s by simp
  with n show ?thesis by simp
qed

lemma truncate_append_left:
  "u = [] \<or> \<not> isNumberChar (last u) \<Longrightarrow>
   truncateDecimals (u @ w) = truncateDecimals u @ truncateDecimals w"
  unfolding truncateDecimals_def
  by (rule replaceG_append_left [where K = isNumberChar])
     (rule matchLongDecimal_local, erule matchLongDecimal_bound, assumption)

lemma truncate_append_right:
  "w = [] \<or> \<not> isNumberChar (hd w) \<Longrightarrow>
   truncateDecimals (u @ w) = truncateDecimals u @ truncateDecimals w"
  unfolding truncateDecimals_def
  by (rule replaceG_append_right [where K = isNumberChar])
     (rule matchLongDecimal_local, erule matchLongDecimal_bound, assumption)

lemma dropExp_append_left:
  "u = [] \<or> \<not> isNumberChar (last u) \<Longrightarrow>
   dropExponents (u @ w) = dropExponents u @ dropExponents w"
  unfolding dropExponents_def
  by (rule replaceG_append_left [where K = isNumberChar])
     (rule matchSciNotation_local, erule matchSciNotation_bound, assumption)

lemma dropExp_append_right:
  "w = [] \<or> \<not> isNumberChar (hd w) \<Longrightarrow>
   dropExponents (u @ w) = dropExponents u @ dropExponents w"
  unfolding dropExponents_def
  by (rule replaceG_append_right [where K = isNumberChar])
     (rule matchSciNotation_local, erule matchSciNotation_bound, assumption)

lemma truncate_Cons: "\<not> isDigit c \<Longrightarrow> truncateDecimals (c # cs) = c # truncateDecimals cs"
  by (simp add: truncateDecimals_def matchLongDecimal_not_digit)

lemma dropExp_Cons: "\<not> isDigit c \<Longrightarrow> dropExponents (c # cs) = c # dropExponents cs"
  by (simp add: dropExponents_def matchSciNotation_not_digit)

lemma normalize_Cons: "\<not> isDigit c \<Longrightarrow> normalizeNumbers (c # cs) = c # normalizeNumbers cs"
  by (simp add: normalizeNumbers_def truncate_Cons dropExp_Cons)

lemma truncate_Nil [simp]: "truncateDecimals [] = []"
  by (simp add: truncateDecimals_def)

lemma dropExp_Nil [simp]: "dropExponents [] = []"
  by (simp add: dropExponents_def)

lemma normalize_Nil [simp]: "normalizeNumbers [] = []"
  by (simp add: normalizeNumbers_def)

lemma truncate_hd:
  "w = [] \<or> \<not> isNumberChar (hd w) \<Longrightarrow>
   truncateDecimals w = [] \<or> \<not> isNumberChar (hd (truncateDecimals w))"
  by (cases w) (auto simp: truncate_Cons isNumberChar_def)

lemma dropExp_hd:
  "w = [] \<or> \<not> isNumberChar (hd w) \<Longrightarrow>
   dropExponents w = [] \<or> \<not> isNumberChar (hd (dropExponents w))"
  by (cases w) (auto simp: dropExp_Cons isNumberChar_def)

lemma normalize_append_right:
  assumes "w = [] \<or> \<not> isNumberChar (hd w)"
  shows "normalizeNumbers (u @ w) = normalizeNumbers u @ normalizeNumbers w"
  unfolding normalizeNumbers_def
  by (simp add: truncate_append_right [OF assms] dropExp_append_right [OF truncate_hd [OF assms]])

lemma normalize_hd:
  "w = [] \<or> \<not> isNumberChar (hd w) \<Longrightarrow>
   normalizeNumbers w = [] \<or> \<not> isNumberChar (hd (normalizeNumbers w))"
  unfolding normalizeNumbers_def by (intro dropExp_hd truncate_hd)

lemma truncate_last:
  assumes "u \<noteq> []" "\<not> isNumberChar (last u)"
  shows "truncateDecimals u = truncateDecimals (butlast u) @ [last u]"
proof -
  have d: "\<not> isDigit (last u)" using assms(2) by (auto simp: isNumberChar_def)
  have "truncateDecimals (butlast u @ [last u]) = truncateDecimals (butlast u) @ truncateDecimals [last u]"
    by (rule truncate_append_right) (simp add: assms(2))
  then show ?thesis using assms(1) d by (simp add: truncate_Cons)
qed

lemma normalize_append_left:
  assumes "u = [] \<or> \<not> isNumberChar (last u)"
  shows "normalizeNumbers (u @ w) = normalizeNumbers u @ normalizeNumbers w"
proof (cases "u = []")
  case True
  then show ?thesis by simp
next
  case False
  with assms have nk: "\<not> isNumberChar (last u)" by simp
  have "truncateDecimals u = truncateDecimals (butlast u) @ [last u]"
    using False nk by (rule truncate_last)
  then have l: "truncateDecimals u = [] \<or> \<not> isNumberChar (last (truncateDecimals u))"
    using nk by simp
  show ?thesis
    unfolding normalizeNumbers_def
    by (simp add: truncate_append_left [OF assms] dropExp_append_left [OF l])
qed

lemma normalize_braced:
  "normalizeNumbers (LBRACE # mid @ [RBRACE]) = LBRACE # normalizeNumbers mid @ [RBRACE]"
proof -
  have d: "\<not> isDigit LBRACE" "\<not> isDigit RBRACE" by (simp_all add: isDigit_def codeunit_defs)
  have "normalizeNumbers (mid @ [RBRACE]) = normalizeNumbers mid @ normalizeNumbers [RBRACE]"
    by (rule normalize_append_right) simp
  then show ?thesis using d by (simp add: normalize_Cons)
qed

text \<open>
  Claim C1. Let \<open>s\<close> be the fence-stripped text. When the first opening brace of
  \<open>s\<close> comes before its last closing brace, the span taken is the one from that opening
  brace to that closing brace, whatever lies between them; the earlier revision of
  \<open>cleanJson\<close> returns that span and the later one its numeric normalization. When
  \<open>s\<close> cannot be split in this way, the whole of \<open>s\<close> is used, trimmed (and, in the
  later revision, normalized first).
\<close>

theorem cleanJson_brace_span:
  "(stripFences text = pre @ LBRACE # mid @ RBRACE # post \<and> LBRACE \<notin> set pre \<and> RBRACE \<notin> set post
      \<longrightarrow> extractSpan (stripFences text) = LBRACE # mid @ [RBRACE]
        \<and> cleanJson_plain text = LBRACE # mid @ [RBRACE]
        \<and> cleanJson text = LBRACE # normalizeNumbers mid @ [RBRACE])
   \<and> ((\<forall>pre mid post. \<not> (stripFences text = pre @ LBRACE # mid @ RBRACE # post \<and>
          LBRACE \<notin> set pre \<and> RBRACE \<notin> set post))
      \<longrightarrow> extractSpan (stripFences text) = stripFences text
        \<and> cleanJson_plain text = trim (stripFences text)
        \<and> cleanJson text = trim (normalizeNumbers (stripFences text)))"
proof (intro conjI impI)
  assume a: "stripFences text = pre @ LBRACE # mid @ RBRACE # post \<and> LBRACE \<notin> set pre \<and> RBRACE \<notin> set post"
  then show e: "extractSpan (stripFences text) = LBRACE # mid @ [RBRACE]"
    by (simp add: extractSpan_braces)
  show "cleanJson_plain text = LBRACE # mid @ [RBRACE]"
    by (simp only: cleanJson_plain_def e trim_braced)
  show "cleanJson text = LBRACE # normalizeNumbers mid @ [RBRACE]"
    by (simp only: cleanJson_def e normalize_braced trim_braced)
next
  assume a: "\<forall>pre mid post. \<not> (stripFences text = pre @ LBRACE # mid @ RBRACE # post \<and>
          LBRACE \<notin> set pre \<and> RBRACE \<notin> set post)"
  then show e: "extractSpan (stripFences text) = stripFences text"
    by (rule extractSpan_whole)
  show "cleanJson_plain text = trim (stripFences text)"
    by (simp only: cleanJson_plain_def e)
  show "cleanJson text = trim (normalizeNumbers (stripFences text))"
    by (simp only: cleanJson_def e)
qed

theorem cleanJson_brace_span_witness:
  \<open>cleanJson (utf16 ''note: {a:1} ignore ... {"final_score":9}'') =
     utf16 ''{a:1} ignore ... {"final_score":9}''
   \<and> cleanJson_plain (utf16 ''  no json here '') = utf16 ''no json here''\<close>
proof -
  let ?t = \<open>utf16 ''note: {a:1} ignore ... {"final_score":9}''\<close>
  let ?mid = \<open>utf16 ''a:1} ignore ... {"final_score":9''\<close>
  let ?r = \<open>utf16 ''{a:1} ignore ... {"final_score":9}''\<close>
  have s: "stripFences ?t = utf16 ''note: '' @ LBRACE # ?mid @ RBRACE # []"
    by (simp add: cleanJson_eval)
  have p: "LBRACE \<notin> set (utf16 ''note: '')" "RBRACE \<notin> set []"
    by (simp_all add: utf16_def LBRACE_def)
  from cleanJson_brace_span [of ?t "utf16 ''note: ''" ?mid "[]"] s p
  have "cleanJson ?t = LBRACE # normalizeNumbers ?mid @ [RBRACE]" by blast
  also have "\<dots> = ?r"
    by (simp add: cleanJson_eval)
  finally have 1: "cleanJson ?t = ?r" .
  let ?u = "utf16 ''  no json here ''"
  have su: "stripFences ?u = ?u" by (simp add: cleanJson_eval)
  have "LBRACE \<notin> set ?u" by (simp add: utf16_def LBRACE_def)
  then have "\<forall>pre mid post. \<not> (stripFences ?u = pre @ LBRACE # mid @ RBRACE # post \<and>
          LBRACE \<notin> set pre \<and> RBRACE \<notin> set post)"
    unfolding su by (metis in_set_conv_decomp)
  with cleanJson_brace_span [of ?u] have "cleanJson_plain ?u = trim (stripFences ?u)" by blast
  also have "\<dots> = utf16 ''no json here''" by (simp add: cleanJson_eval)
  finally have 2: "cleanJson_plain ?u = utf16 ''no json here''" .
  from 1 2 show ?thesis by blast
qed

section \<open>Number literals under the numeric rewrites\<close>

lemma replaceG_match_head:
  assumes "m s = Some (r, n)" "s \<noteq> []" "0 < n"
  shows "replaceG m s = r @ replaceG m (drop n s)"
proof -
  from assms(2) obtain c cs where s: "s = c # cs" by (cases s) auto
  from assms(3) have "drop (n - 1) cs = drop n (c # cs)" by (cases n) auto
  with assms(1) show ?thesis unfolding s by simp
qed

lemma replaceG_copy:
  assumes "\<And>k. k < length p \<Longrightarrow> m (drop k p @ w) = None"
  shows "replaceG m (p @ w) = p @ replaceG m w"
  using assms
proof (induction p)
  case Nil
  show ?case by simp
next
  case (Cons c cs)
  from Cons(2)[of 0] have h: "m (c # cs @ w) = None" by simp
  have "replaceG m (cs @ w) = cs @ replaceG m w"
  proof (rule Cons(1))
    fix k assume "k < length cs"
    then show "m (drop k cs @ w) = None" using Cons(2)[of "Suc k"] by simp
  qed
  with h show ?case by simp
qed

lemma matchLongDecimal_no_dot:
  "dropWhile isDigit s = [] \<or> hd (dropWhile isDigit s) \<noteq> DOT \<Longrightarrow> matchLongDecimal s = None"
  by (cases "dropWhile isDigit s") (auto simp: matchLongDecimal_unfold Let_def simp del: dropWhile_eq_Nil_conv)

lemma matchSciNotation_no_dot:
  "dropWhile isDigit s = [] \<or> hd (dropWhile isDigit s) \<noteq> DOT \<Longrightarrow> matchSciNotation s = None"
  by (cases "dropWhile isDigit s") (auto simp: matchSciNotation_unfold Let_def simp del: dropWhile_eq_Nil_conv)

lemma matchSciNotation_no_exp:
  assumes "\<forall>c\<in>set ip. isDigit c" "\<forall>c\<in>set fp. isDigit c"
    "tail = [] \<or> (\<not> isDigit (hd tail) \<and> hd tail \<noteq> LOWER_E \<and> hd tail \<noteq> UPPER_E)"
  shows "matchSciNotation (ip @ DOT # fp @ tail) = None"
proof -
  have 1: "takeWhile isDigit (ip @ DOT # fp @ tail) = ip"
    using assms(1) by (intro takeWhile_run) auto
  have 2: "dropWhile isDigit (ip @ DOT # fp @ tail) = DOT # fp @ tail"
    using assms(1) by (intro dropWhile_run) auto
  have 3: "takeWhile isDigit (fp @ tail) = fp"
    using assms(2,3) by (intro takeWhile_run) auto
  have 4: "dropWhile isDigit (fp @ tail) = tail"
    using assms(2,3) by (intro dropWhile_run) auto
  have "(case tail of [] \<Rightarrow> None | e # r4 \<Rightarrow> if e \<noteq> LOWER_E \<and> e \<noteq> UPPER_E then None else X e r4) = None"
    for X :: "codeunit \<Rightarrow> jsstring \<Rightarrow> (jsstring \<times> nat) option"
    using assms(3) by (cases tail) auto
  then show ?thesis
    unfolding matchSciNotation_unfold Let_def 1 2 list.case 3 4 by simp
qed

lemma digits_copy_long:
  assumes "\<forall>c\<in>set ds. isDigit c" "tail = [] \<or> (\<not> isDigit (hd tail) \<and> hd tail \<noteq> DOT)"
  shows "replaceG matchLongDecimal (ds @ tail) = ds @ replaceG matchLongDecimal tail"
proof (rule replaceG_copy)
  fix k assume "k < length ds"
  have "\<forall>c\<in>set (drop k ds). isDigit c" using assms(1) by (meson in_set_dropD)
  then have "dropWhile isDigit (drop k ds @ tail) = tail"
    using assms(2) by (intro dropWhile_run) auto
  then show "matchLongDecimal (drop k ds @ tail) = None"
    using assms(2) by (intro matchLongDecimal_no_dot) auto
qed

lemma digits_copy_sci:
  assumes "\<forall>c\<in>set ds. isDigit c" "tail = [] \<or> (\<not> isDigit (hd tail) \<and> hd tail \<noteq> DOT)"
  shows "replaceG matchSciNotation (ds @ tail) = ds @ replaceG matchSciNotation tail"
proof (rule replaceG_copy)
  fix k assume "k < length ds"
  have "\<forall>c\<in>set (drop k ds). isDigit c" using assms(1) by (meson in_set_dropD)
  then have "dropWhile isDigit (drop k ds @ tail) = tail"
    using assms(2) by (intro dropWhile_run) auto
  then show "matchSciNotation (drop k ds @ tail) = None"
    using assms(2) by (intro matchSciNotation_no_dot) auto
qed

lemma no_dot_long:
  assumes "DOT \<notin> set s"
  shows "truncateDecimals s = s"
  unfolding truncateDecimals_def
proof (rule replaceG_no_match)
  fix k
  have "DOT \<notin> set (drop k s)" using assms by (meson in_set_dropD)
  then show "matchLongDecimal (drop k s) = None"
    by (intro matchLongDecimal_no_dot) (metis dropWhile_eq_Nil_conv hd_in_set set_dropWhileD)
qed

lemma no_dot_sci:
  assumes "DOT \<notin> set s"
  shows "dropExponents s = s"
  unfolding dropExponents_def
proof (rule replaceG_no_match)
  fix k
  have "DOT \<notin> set (drop k s)" using assms by (meson in_set_dropD)
  then show "matchSciNotation (drop k s) = None"
    by (intro matchSciNotation_no_dot) (metis dropWhile_eq_Nil_conv hd_in_set set_dropWhileD)
qed

text \<open>The decimal-tail rewrite on a literal followed by something that is neither a digit nor a dot.\<close>

lemma truncate_literal:
  assumes ip: "ip \<noteq> []" "\<forall>c\<in>set ip. isDigit c" and fp: "\<forall>c\<in>set fp. isDigit c"
    and tail: "tail = [] \<or> (\<not> isDigit (hd tail) \<and> hd tail \<noteq> DOT)"
  shows "truncateDecimals (ip @ DOT # fp @ tail) = ip @ DOT # take 6 fp @ truncateDecimals tail"
proof (cases "7 \<le> length fp")
  case True
  have t: "tail = [] \<or> \<not> isDigit (hd tail)" using tail by auto
  have m: "matchLongDecimal (ip @ DOT # fp @ tail) = Some (ip @ DOT # take 6 fp, length ip + 1 + length fp)"
    using matchLongDecimal_eval [OF ip fp t] True by simp
  have "replaceG matchLongDecimal (ip @ DOT # fp @ tail)
        = (ip @ DOT # take 6 fp) @ replaceG matchLongDecimal (drop (length ip + 1 + length fp) (ip @ DOT # fp @ tail))"
    using m ip(1) by (intro replaceG_match_head) auto
  then show ?thesis by (simp add: truncateDecimals_def)
next
  case False
  have t: "tail = [] \<or> \<not> isDigit (hd tail)" using tail by auto
  have 1: "replaceG matchLongDecimal (ip @ DOT # fp @ tail) = ip @ replaceG matchLongDecimal (DOT # fp @ tail)"
  proof (rule replaceG_copy)
    fix k assume k: "k < length ip"
    then have "drop k ip \<noteq> []" by simp
    moreover have "\<forall>c\<in>set (drop k ip). isDigit c" using ip(2) by (meson in_set_dropD)
    ultimately show "matchLongDecimal (drop k ip @ DOT # fp @ tail) = None"
      using matchLongDecimal_eval [of "drop k ip" fp tail] fp t False by simp
  qed
  have 2: "replaceG matchLongDecimal (DOT # fp @ tail) = DOT # replaceG matchLongDecimal (fp @ tail)"
    by (simp add: matchLongDecimal_not_digit)
  have 3: "replaceG matchLongDecimal (fp @ tail) = fp @ replaceG matchLongDecimal tail"
    using fp tail by (rule digits_copy_long)
  from False have "take 6 fp = fp" by simp
  with 1 2 3 show ?thesis by (simp add: truncateDecimals_def)
qed

lemma dropExp_plain_literal:
  assumes ip: "\<forall>c\<in>set ip. isDigit c" and fp: "\<forall>c\<in>set fp. isDigit c"
    and tail: "tail = [] \<or> (\<not> isDigit (hd tail) \<and> hd tail \<noteq> DOT \<and> hd tail \<noteq> LOWER_E \<and> hd tail \<noteq> UPPER_E)"
  shows "dropExponents (ip @ DOT # fp @ tail) = ip @ DOT # fp @ dropExponents tail"
proof -
  have t: "tail = [] \<or> (\<not> isDigit (hd tail) \<and> hd tail \<noteq> LOWER_E \<and> hd tail \<noteq> UPPER_E)"
    using tail by auto
  have 1: "replaceG matchSciNotation (ip @ DOT # fp @ tail) = ip @ replaceG matchSciNotation (DOT # fp @ tail)"
  proof (rule replaceG_copy)
    fix k assume k: "k < length ip"
    have "\<forall>c\<in>set (drop k ip). isDigit c" using ip by (meson in_set_dropD)
    then show "matchSciNotation (drop k ip @ DOT # fp @ tail) = None"
      using fp t by (rule matchSciNotation_no_exp)
  qed
  have 2: "replaceG matchSciNotation (DOT # fp @ tail) = DOT # replaceG matchSciNotation (fp @ tail)"
    by (simp add: matchSciNotation_not_digit)
  have 3: "replaceG matchSciNotation (fp @ tail) = fp @ replaceG matchSciNotation tail"
    using fp tail by (intro digits_copy_sci) auto
  from 1 2 3 show ?thesis by (simp add: dropExponents_def)
qed

lemma dropExp_sci_literal:
  assumes "ip \<noteq> []" "\<forall>c\<in>set ip. isDigit c" "fp \<noteq> []" "\<forall>c\<in>set fp. isDigit c"
    "e = LOWER_E \<or> e = UPPER_E" "sg = [] \<or> sg = [PLUS] \<or> sg = [MINUS]"
    "ex \<noteq> []" "\<forall>c\<in>set ex. isDigit c"
  shows "dropExponents (ip @ DOT # fp @ e # sg @ ex) = ip @ DOT # take 2 fp"
proof -
  have m: "matchSciNotation (ip @ DOT # fp @ e # sg @ ex @ []) =
           Some (ip @ DOT # take 2 fp, length ip + 1 + length fp + 1 + length sg + length ex)"
    using assms by (intro matchSciNotation_eval) auto
  have "replaceG matchSciNotation (ip @ DOT # fp @ e # sg @ ex)
        = (ip @ DOT # take 2 fp) @ replaceG matchSciNotation
            (drop (length ip + 1 + length fp + 1 + length sg + length ex) (ip @ DOT # fp @ e # sg @ ex))"
    using m assms(1) by (intro replaceG_match_head) auto
  then show ?thesis by (simp add: dropExponents_def)
qed

text \<open>Numeric normalization of a literal standing alone.\<close>

lemma normalize_decimal_literal:
  assumes "ip \<noteq> []" "\<forall>c\<in>set ip. isDigit c" "\<forall>c\<in>set fp. isDigit c"
  shows "truncateDecimals (ip @ DOT # fp) = ip @ DOT # take 6 fp"
    and "normalizeNumbers (ip @ DOT # fp) = ip @ DOT # take 6 fp"
proof -
  show t: "truncateDecimals (ip @ DOT # fp) = ip @ DOT # take 6 fp"
    using truncate_literal [OF assms, of "[]"] by simp
  have "\<forall>c\<in>set (take 6 fp). isDigit c" using assms(3) by (meson in_set_takeD)
  then have "dropExponents (ip @ DOT # take 6 fp) = ip @ DOT # take 6 fp"
    using dropExp_plain_literal [OF assms(2), of "take 6 fp" "[]"] by simp
  with t show "normalizeNumbers (ip @ DOT # fp) = ip @ DOT # take 6 fp"
    by (simp add: normalizeNumbers_def)
qed

lemma exponent_part_no_dot:
  assumes "e = LOWER_E \<or> e = UPPER_E" "sg = [] \<or> sg = [PLUS] \<or> sg = [MINUS]" "\<forall>c\<in>set ex. isDigit c"
  shows "DOT \<notin> set (e # sg @ ex)"
  using assms by auto

lemma normalize_sci_literal:
  assumes "ip \<noteq> []" "\<forall>c\<in>set ip. isDigit c" "fp \<noteq> []" "\<forall>c\<in>set fp. isDigit c"
    "e = LOWER_E \<or> e = UPPER_E" "sg = [] \<or> sg = [PLUS] \<or> sg = [MINUS]"
    "ex \<noteq> []" "\<forall>c\<in>set ex. isDigit c"
  shows "normalizeNumbers (ip @ DOT # fp @ e # sg @ ex) = ip @ DOT # take 2 fp"
proof -
  let ?tail = "e # sg @ ex"
  have nd: "DOT \<notin> set ?tail" using assms(5,6,8) by (rule exponent_part_no_dot)
  have hd: "?tail = [] \<or> (\<not> isDigit (hd ?tail) \<and> hd ?tail \<noteq> DOT)" using assms(5) by auto
  have "truncateDecimals (ip @ DOT # fp @ ?tail) = ip @ DOT # take 6 fp @ truncateDecimals ?tail"
    using assms(1,2,4) hd by (rule truncate_literal)
  then have t: "truncateDecimals (ip @ DOT # fp @ e # sg @ ex) = ip @ DOT # take 6 fp @ e # sg @ ex"
    using no_dot_long [OF nd] by simp
  have f6: "take 6 fp \<noteq> []" "\<forall>c\<in>set (take 6 fp). isDigit c"
    using assms(3,4) by (auto dest: in_set_takeD)
  have "dropExponents (ip @ DOT # take 6 fp @ e # sg @ ex) = ip @ DOT # take 2 (take 6 fp)"
    using assms(1,2) f6 assms(5,6,7,8) by (rule dropExp_sci_literal)
  with t show ?thesis by (simp add: normalizeNumbers_def min_def)
qed

lemma normalize_int_sci_literal:
  assumes "\<forall>c\<in>set ip. isDigit c"
    "e = LOWER_E \<or> e = UPPER_E" "sg = [] \<or> sg = [PLUS] \<or> sg = [MINUS]" "\<forall>c\<in>set ex. isDigit c"
  shows "normalizeNumbers (ip @ e # sg @ ex) = ip @ e # sg @ ex"
proof -
  have "DOT \<notin> set (ip @ e # sg @ ex)" using assms by auto
  then show ?thesis by (simp add: normalizeNumbers_def no_dot_long no_dot_sci)
qed

text \<open>A literal between delimiters: the text around it is normalized on its own.\<close>

lemma normalize_in_context:
  assumes u: "u = [] \<or> \<not> isNumberChar (last u)" and v: "v = [] \<or> \<not> isNumberChar (hd v)"
    and neg: "neg = [] \<or> neg = [MINUS]"
  shows "normalizeNumbers (u @ neg @ lit @ v) = normalizeNumbers u @ neg @ normalizeNumbers lit @ normalizeNumbers v"
    and "truncateDecimals (u @ neg @ lit @ v) = truncateDecimals u @ neg @ truncateDecimals lit @ truncateDecimals v"
proof -
  have 1: "normalizeNumbers (u @ neg @ lit @ v) = normalizeNumbers u @ normalizeNumbers (neg @ lit @ v)"
    using u by (rule normalize_append_left)
  have 2: "normalizeNumbers (neg @ lit @ v) = neg @ normalizeNumbers (lit @ v)"
    using neg by (auto simp: normalize_Cons)
  have 3: "normalizeNumbers (lit @ v) = normalizeNumbers lit @ normalizeNumbers v"
    using v by (rule normalize_append_right)
  from 1 2 3 show "normalizeNumbers (u @ neg @ lit @ v) = normalizeNumbers u @ neg @ normalizeNumbers lit @ normalizeNumbers v"
    by simp
  have 1: "truncateDecimals (u @ neg @ lit @ v) = truncateDecimals u @ truncateDecimals (neg @ lit @ v)"
    using u by (rule truncate_append_left)
  have 2: "truncateDecimals (neg @ lit @ v) = neg @ truncateDecimals (lit @ v)"
    using neg by (auto simp: truncate_Cons)
  have 3: "truncateDecimals (lit @ v) = truncateDecimals lit @ truncateDecimals v"
    using v by (rule truncate_append_right)
  from 1 2 3 show "truncateDecimals (u @ neg @ lit @ v) = truncateDecimals u @ neg @ truncateDecimals lit @ truncateDecimals v"
    by simp
qed

text \<open>
  Claim C3. A decimal literal (digits, a dot, digits, with an optional minus sign) that
  stands between code units that cannot belong to a number keeps its integer digits and
  the first six digits of its fraction; the text before and after it is rewritten on its
  own. With more than six fraction digits exactly six remain, the excess is cut off, not
  rounded; with six or fewer the literal is unchanged. This holds for the decimal-tail
  rewrite alone and for the two rewrites together.
\<close>

theorem long_decimal_truncated:
  assumes "ip \<noteq> []" "\<forall>c\<in>set ip. isDigit c" "\<forall>c\<in>set fp. isDigit c"
    and "u = [] \<or> \<not> isNumberChar (last u)" and "v = [] \<or> \<not> isNumberChar (hd v)"
    and "neg = [] \<or> neg = [MINUS]"
  shows "truncateDecimals (u @ neg @ (ip @ DOT # fp) @ v)
           = truncateDecimals u @ neg @ (ip @ DOT # take 6 fp) @ truncateDecimals v
       \<and> normalizeNumbers (u @ neg @ (ip @ DOT # fp) @ v)
           = normalizeNumbers u @ neg @ (ip @ DOT # take 6 fp) @ normalizeNumbers v
       \<and> (6 < length fp \<longrightarrow> length (take 6 fp) = 6 \<and> prefix (take 6 fp) fp)
       \<and> (length fp \<le> 6 \<longrightarrow> take 6 fp = fp)"
proof -
  have 1: "truncateDecimals (u @ neg @ (ip @ DOT # fp) @ v)
           = truncateDecimals u @ neg @ (ip @ DOT # take 6 fp) @ truncateDecimals v"
    using normalize_in_context(2) [OF assms(4,5,6), of "ip @ DOT # fp"]
      normalize_decimal_literal(1) [OF assms(1,2,3)] by simp
  have 2: "normalizeNumbers (u @ neg @ (ip @ DOT # fp) @ v)
           = normalizeNumbers u @ neg @ (ip @ DOT # take 6 fp) @ normalizeNumbers v"
    using normalize_in_context(1) [OF assms(4,5,6), of "ip @ DOT # fp"]
      normalize_decimal_literal(2) [OF assms(1,2,3)] by simp
  have 3: "6 < length fp \<longrightarrow> length (take 6 fp) = 6 \<and> prefix (take 6 fp) fp"
    by (simp add: take_is_prefix)
  have 4: "length fp \<le> 6 \<longrightarrow> take 6 fp = fp" by simp
  from 1 2 3 4 show ?thesis by blast
qed

theorem long_decimal_truncated_witness:
  \<open>normalizeNumbers (utf16 ''{"final_score": 8.500000000000002, "overall_feedback": "Good"}'')
     = utf16 ''{"final_score": 8.500000, "overall_feedback": "Good"}''
   \<and> normalizeNumbers (utf16 ''[-0.25]'') = utf16 ''[-0.25]''\<close>
proof -
  let ?u = \<open>utf16 ''{"final_score": ''\<close>
  let ?v = \<open>utf16 '', "overall_feedback": "Good"}''\<close>
  have d: "utf16 ''8'' \<noteq> []" "\<forall>c\<in>set (utf16 ''8''). isDigit c"
    "\<forall>c\<in>set (utf16 ''500000000000002''). isDigit c"
    by (simp_all add: utf16_def isDigit_def)
  have u: "?u = [] \<or> \<not> isNumberChar (last ?u)"
    by (simp add: utf16_def isNumberChar_def isDigit_def codeunit_defs)
  have v: "?v = [] \<or> \<not> isNumberChar (hd ?v)"
    by (simp add: utf16_def isNumberChar_def isDigit_def codeunit_defs)
  from long_decimal_truncated [OF d u v, of "[]"]
  have "normalizeNumbers (?u @ [] @ (utf16 ''8'' @ DOT # utf16 ''500000000000002'') @ ?v)
          = normalizeNumbers ?u @ [] @ (utf16 ''8'' @ DOT # take 6 (utf16 ''500000000000002'')) @ normalizeNumbers ?v"
    by blast
  moreover have "normalizeNumbers ?u = ?u" "normalizeNumbers ?v = ?v"
    by (simp_all add: cleanJson_eval)
  ultimately have 1: \<open>normalizeNumbers (utf16 ''{"final_score": 8.500000000000002, "overall_feedback": "Good"}'')
     = utf16 ''{"final_score": 8.500000, "overall_feedback": "Good"}''\<close>
    by (simp add: utf16_def DOT_def)
  have d2: "utf16 ''0'' \<noteq> []" "\<forall>c\<in>set (utf16 ''0''). isDigit c" "\<forall>c\<in>set (utf16 ''25''). isDigit c"
    by (simp_all add: utf16_def isDigit_def)
  have u2: "utf16 ''['' = [] \<or> \<not> isNumberChar (last (utf16 ''[''))"
    by (simp add: utf16_def isNumberChar_def isDigit_def codeunit_defs)
  have v2: "utf16 '']'' = [] \<or> \<not> isNumberChar (hd (utf16 '']''))"
    by (simp add: utf16_def isNumberChar_def isDigit_def codeunit_defs)
  from long_decimal_truncated [OF d2 u2 v2, of "[MINUS]"]
  have "normalizeNumbers (utf16 ''['' @ [MINUS] @ (utf16 ''0'' @ DOT # utf16 ''25'') @ utf16 '']'')
          = normalizeNumbers (utf16 ''['') @ [MINUS] @ (utf16 ''0'' @ DOT # take 6 (utf16 ''25'')) @ normalizeNumbers (utf16 '']'')"
    by blast
  moreover have "normalizeNumbers (utf16 ''['') = utf16 ''[''" "normalizeNumbers (utf16 '']'') = utf16 '']''"
    by (simp_all add: cleanJson_eval)
  ultimately have 2: "normalizeNumbers (utf16 ''[-0.25]'') = utf16 ''[-0.25]''"
    by (simp add: utf16_def DOT_def MINUS_def)
  from 1 2 show ?thesis by blast
qed

text \<open>
  Claim C4. A literal in scientific notation with a fractional mantissa, between code
  units that cannot belong to a number, is replaced by its integer digits, the dot and the
  first two fraction digits; the exponent is dropped. With an integer mantissa the literal
  is unchanged. The response text \<^verbatim>\<open>{"weight": 5.0000000000000018e+00}\<close> decodes to an
  object whose weight is 5.
\<close>

theorem sci_notation_mantissa_kept:
  assumes "ip \<noteq> []" "\<forall>c\<in>set ip. isDigit c" "fp \<noteq> []" "\<forall>c\<in>set fp. isDigit c"
    and "e = LOWER_E \<or> e = UPPER_E" and "sg = [] \<or> sg = [PLUS] \<or> sg = [MINUS]"
    and "ex \<noteq> []" "\<forall>c\<in>set ex. isDigit c"
    and "u = [] \<or> \<not> isNumberChar (last u)" and "v = [] \<or> \<not> isNumberChar (hd v)"
    and "neg = [] \<or> neg = [MINUS]"
  shows \<open>normalizeNumbers (u @ neg @ (ip @ DOT # fp @ e # sg @ ex) @ v)
           = normalizeNumbers u @ neg @ (ip @ DOT # take 2 fp) @ normalizeNumbers v
       \<and> normalizeNumbers (u @ neg @ (ip @ e # sg @ ex) @ v)
           = normalizeNumbers u @ neg @ (ip @ e # sg @ ex) @ normalizeNumbers v
       \<and> generateRubricFromText
           (Inr \<lparr>responseText = Some (utf16 ''{"weight": 5.0000000000000018e+00}''), groundingChunks = None\<rparr>)
           = ([], Inr (JObject [(utf16 ''weight'', JNumber 5)]))\<close>
proof -
  have 1: "normalizeNumbers (u @ neg @ (ip @ DOT # fp @ e # sg @ ex) @ v)
           = normalizeNumbers u @ neg @ (ip @ DOT # take 2 fp) @ normalizeNumbers v"
    using normalize_in_context(1) [OF assms(9,10,11), of "ip @ DOT # fp @ e # sg @ ex"]
      normalize_sci_literal [OF assms(1-8)] by simp
  have 2: "normalizeNumbers (u @ neg @ (ip @ e # sg @ ex) @ v)
           = normalizeNumbers u @ neg @ (ip @ e # sg @ ex) @ normalizeNumbers v"
    using normalize_in_context(1) [OF assms(9,10,11), of "ip @ e # sg @ ex"]
      normalize_int_sci_literal [OF assms(2,5,6,8)] by simp
  have 3: \<open>generateRubricFromText
           (Inr \<lparr>responseText = Some (utf16 ''{"weight": 5.0000000000000018e+00}''), groundingChunks = None\<rparr>)
           = ([], Inr (JObject [(utf16 ''weight'', JNumber 5)]))\<close>
    by (simp add: generateRubricFromText_def noText_def cleanJson_eval JSON_parse_eval)
  from 1 2 3 show ?thesis by blast
qed

theorem sci_notation_mantissa_kept_witness:
  \<open>normalizeNumbers (utf16 ''{"weight": 5.0000000000000018e+00}'') = utf16 ''{"weight": 5.00}''
   \<and> normalizeNumbers (utf16 ''{"weight": 5e+00}'') = utf16 ''{"weight": 5e+00}''\<close>
proof -
  let ?u = \<open>utf16 ''{"weight": ''\<close>
  let ?v = \<open>utf16 ''}''\<close>
  have d: "utf16 ''5'' \<noteq> []" "\<forall>c\<in>set (utf16 ''5''). isDigit c"
    "utf16 ''0000000000000018'' \<noteq> []" "\<forall>c\<in>set (utf16 ''0000000000000018''). isDigit c"
    "LOWER_E = LOWER_E \<or> LOWER_E = UPPER_E" "[PLUS] = [] \<or> [PLUS] = [PLUS] \<or> [PLUS] = [MINUS]"
    "utf16 ''00'' \<noteq> []" "\<forall>c\<in>set (utf16 ''00''). isDigit c"
    by (simp_all add: utf16_def isDigit_def)
  have u: "?u = [] \<or> \<not> isNumberChar (last ?u)"
    by (simp add: utf16_def isNumberChar_def isDigit_def codeunit_defs)
  have v: "?v = [] \<or> \<not> isNumberChar (hd ?v)"
    by (simp add: utf16_def isNumberChar_def isDigit_def codeunit_defs)
  have n: "([]::jsstring) = [] \<or> [] = [MINUS]" by simp
  note w = sci_notation_mantissa_kept [OF d u v n]
  have uv: "normalizeNumbers ?u = ?u" "normalizeNumbers ?v = ?v"
    by (simp_all add: cleanJson_eval)
  from w have "normalizeNumbers (?u @ [] @ (utf16 ''5'' @ DOT # utf16 ''0000000000000018'' @ LOWER_E # [PLUS] @ utf16 ''00'') @ ?v)
           = normalizeNumbers ?u @ [] @ (utf16 ''5'' @ DOT # take 2 (utf16 ''0000000000000018'')) @ normalizeNumbers ?v"
    by blast
  then have 1: \<open>normalizeNumbers (utf16 ''{"weight": 5.0000000000000018e+00}'') = utf16 ''{"weight": 5.00}''\<close>
    unfolding uv by (simp add: utf16_def codeunit_defs)
  from w have "normalizeNumbers (?u @ [] @ (utf16 ''5'' @ LOWER_E # [PLUS] @ utf16 ''00'') @ ?v)
           = normalizeNumbers ?u @ [] @ (utf16 ''5'' @ LOWER_E # [PLUS] @ utf16 ''00'') @ normalizeNumbers ?v"
    by blast
  then have 2: \<open>normalizeNumbers (utf16 ''{"weight": 5e+00}'') = utf16 ''{"weight": 5e+00}''\<close>
    unfolding uv by (simp add: utf16_def codeunit_defs)
  from 1 2 show ?thesis by blast
qed

section \<open>Idempotence of the numeric rewrites\<close>

lemma isDecimalLiteral_shape:
  assumes "isDecimalLiteral b"
  shows "\<exists>neg ip fp. (neg = [] \<or> neg = [MINUS]) \<and> ip \<noteq> [] \<and> (\<forall>c\<in>set ip. isDigit c) \<and>
           fp \<noteq> [] \<and> (\<forall>c\<in>set fp. isDigit c) \<and>
           (b = neg @ ip @ DOT # fp \<or>
            (\<exists>e sg ex. (e = LOWER_E \<or> e = UPPER_E) \<and> (sg = [] \<or> sg = [PLUS] \<or> sg = [MINUS]) \<and>
                ex \<noteq> [] \<and> (\<forall>c\<in>set ex. isDigit c) \<and> b = neg @ ip @ DOT # fp @ e # sg @ ex))"
proof -
  define neg where "neg = (if b \<noteq> [] \<and> hd b = MINUS then [MINUS] else [])"
  define b1 where "b1 = (if b \<noteq> [] \<and> hd b = MINUS then tl b else b)"
  define ip where "ip = takeWhile isDigit b1"
  define r1 where "r1 = dropWhile isDigit b1"
  define fp where "fp = takeWhile isDigit (tl r1)"
  define r3 where "r3 = dropWhile isDigit (tl r1)"
  have b: "b = neg @ b1" unfolding neg_def b1_def by (cases b) auto
  have b1: "b1 = ip @ r1" unfolding ip_def r1_def by simp
  from assms have c: "ip \<noteq> []" "r1 \<noteq> []" "hd r1 = DOT" "fp \<noteq> []" "r3 = [] \<or> isExponentPart r3"
    unfolding isDecimalLiteral_def Let_def b1_def[symmetric] ip_def[symmetric] r1_def[symmetric]
      fp_def[symmetric] r3_def[symmetric] by auto
  from c(2,3) have r1: "r1 = DOT # fp @ r3" unfolding fp_def r3_def by (cases r1) auto
  have d: "\<forall>c\<in>set ip. isDigit c" "\<forall>c\<in>set fp. isDigit c"
    unfolding ip_def fp_def by (metis set_takeWhileD)+
  have n: "neg = [] \<or> neg = [MINUS]" unfolding neg_def by simp
  show ?thesis
  proof (cases "r3 = []")
    case True
    then have "b = neg @ ip @ DOT # fp" using b b1 r1 by simp
    with n c d show ?thesis by blast
  next
    case False
    with c(5) have e: "isExponentPart r3" by simp
    define e0 where "e0 = hd r3"
    define sg where "sg = optSign (tl r3)"
    define ex where "ex = drop (length sg) (tl r3)"
    from e have e1: "r3 \<noteq> []" "e0 = LOWER_E \<or> e0 = UPPER_E" "ex \<noteq> []" "list_all isDigit ex"
      unfolding isExponentPart_def Let_def e0_def sg_def ex_def by auto
    have sg: "sg = [] \<or> sg = [PLUS] \<or> sg = [MINUS]"
      unfolding sg_def by (cases "tl r3") (auto simp: optSign_def)
    have "tl r3 = sg @ ex" unfolding ex_def sg_def by (cases "tl r3") (auto simp: optSign_def)
    with e1(1) have r3: "r3 = e0 # sg @ ex" unfolding e0_def by (cases r3) auto
    have "\<forall>c\<in>set ex. isDigit c" using e1(4) by (simp add: list_all_iff)
    moreover have "b = neg @ ip @ DOT # fp @ e0 # sg @ ex" using b b1 r1 r3 by simp
    ultimately show ?thesis using n c d e1 sg by blast
  qed
qed

lemma hasDecimalPoint_drop: "hasDecimalPoint (drop k s) \<Longrightarrow> hasDecimalPoint s"
proof (induction s arbitrary: k rule: hasDecimalPoint.induct)
  case (1 a b c rest)
  show ?case
  proof (cases k)
    case 0
    with 1 show ?thesis by simp
  next
    case (Suc j)
    with 1(2) have "hasDecimalPoint (drop j (b # c # rest))" by simp
    then have "hasDecimalPoint (b # c # rest)" by (rule 1(1))
    then show ?thesis by simp
  qed
qed (auto simp: drop_Cons split: nat.splits)

lemma hasDecimalPoint_literal:
  assumes "ip \<noteq> []" "\<forall>c\<in>set ip. isDigit c" "fp \<noteq> []" "\<forall>c\<in>set fp. isDigit c"
  shows "hasDecimalPoint (ip @ DOT # fp @ rest)"
proof -
  obtain f fs where fp: "fp = f # fs" using assms(3) by (cases fp) auto
  have e: "ip @ DOT # fp @ rest = butlast ip @ (last ip # DOT # f # fs @ rest)"
    using assms(1) fp by simp
  have "isDigit (last ip)" "isDigit f" using assms(1,2,4) fp by auto
  then have "hasDecimalPoint (last ip # DOT # f # fs @ rest)" by simp
  then have "hasDecimalPoint (drop (length (butlast ip)) (butlast ip @ (last ip # DOT # f # fs @ rest)))"
    by simp
  then show ?thesis unfolding e by (rule hasDecimalPoint_drop)
qed

lemma matchLongDecimal_needs_point: "matchLongDecimal s = Some (r, n) \<Longrightarrow> hasDecimalPoint s"
proof -
  assume "matchLongDecimal s = Some (r, n)"
  from matchLongDecimal_SomeD[OF this] obtain ip fp rest where
    "s = ip @ DOT # fp @ rest" "ip \<noteq> []" "\<forall>c\<in>set ip. isDigit c" "\<forall>c\<in>set fp. isDigit c" "7 \<le> length fp"
    by blast
  moreover from this have "fp \<noteq> []" by auto
  ultimately show ?thesis using hasDecimalPoint_literal by blast
qed

lemma matchSciNotation_needs_point: "matchSciNotation s = Some (r, n) \<Longrightarrow> hasDecimalPoint s"
proof -
  assume "matchSciNotation s = Some (r, n)"
  from matchSciNotation_SomeD[OF this] obtain ip fp e sg ex rest where
    "s = ip @ DOT # fp @ e # sg @ ex @ rest" "ip \<noteq> []" "\<forall>c\<in>set ip. isDigit c" "fp \<noteq> []" "\<forall>c\<in>set fp. isDigit c"
    by blast
  then show ?thesis using hasDecimalPoint_literal [of ip fp "e # sg @ ex @ rest"] by simp
qed

lemma normalize_no_point:
  assumes "\<not> hasDecimalPoint s"
  shows "normalizeNumbers s = s"
proof -
  have np: "\<not> hasDecimalPoint (drop k s)" for k using assms hasDecimalPoint_drop by blast
  have 1: "truncateDecimals s = s"
    unfolding truncateDecimals_def
  proof (rule replaceG_no_match)
    fix k
    show "matchLongDecimal (drop k s) = None"
      using np [of k] matchLongDecimal_needs_point by (cases "matchLongDecimal (drop k s)") auto
  qed
  have 2: "dropExponents s = s"
    unfolding dropExponents_def
  proof (rule replaceG_no_match)
    fix k
    show "matchSciNotation (drop k s) = None"
      using np [of k] matchSciNotation_needs_point by (cases "matchSciNotation (drop k s)") auto
  qed
  from 1 2 show ?thesis by (simp add: normalizeNumbers_def)
qed

lemma normalize_neg: "neg = [] \<or> neg = [MINUS] \<Longrightarrow> normalizeNumbers (neg @ s) = neg @ normalizeNumbers s"
  by (auto simp: normalize_Cons)

lemma normalize_literal_idem:
  assumes "isDecimalLiteral b"
  shows "normalizeNumbers (normalizeNumbers b) = normalizeNumbers b"
proof -
  from isDecimalLiteral_shape[OF assms] obtain neg ip fp where
    n: "neg = [] \<or> neg = [MINUS]" and ip: "ip \<noteq> []" "\<forall>c\<in>set ip. isDigit c"
    and fp: "fp \<noteq> []" "\<forall>c\<in>set fp. isDigit c"
    and b: "b = neg @ ip @ DOT # fp \<or>
            (\<exists>e sg ex. (e = LOWER_E \<or> e = UPPER_E) \<and> (sg = [] \<or> sg = [PLUS] \<or> sg = [MINUS]) \<and>
                ex \<noteq> [] \<and> (\<forall>c\<in>set ex. isDigit c) \<and> b = neg @ ip @ DOT # fp @ e # sg @ ex)"
    by blast
  have tk: "\<forall>c\<in>set (take k fp). isDigit c" for k using fp(2) by (meson in_set_takeD)
  from b show ?thesis
  proof
    assume "b = neg @ ip @ DOT # fp"
    then have "normalizeNumbers b = neg @ ip @ DOT # take 6 fp"
      using normalize_neg [OF n] normalize_decimal_literal(2) [OF ip fp(2)] by simp
    moreover have "normalizeNumbers (neg @ ip @ DOT # take 6 fp) = neg @ ip @ DOT # take 6 (take 6 fp)"
      using normalize_neg [OF n] normalize_decimal_literal(2) [OF ip tk] by simp
    ultimately show ?thesis by simp
  next
    assume "\<exists>e sg ex. (e = LOWER_E \<or> e = UPPER_E) \<and> (sg = [] \<or> sg = [PLUS] \<or> sg = [MINUS]) \<and>
                ex \<noteq> [] \<and> (\<forall>c\<in>set ex. isDigit c) \<and> b = neg @ ip @ DOT # fp @ e # sg @ ex"
    then obtain e sg ex where e: "e = LOWER_E \<or> e = UPPER_E" "sg = [] \<or> sg = [PLUS] \<or> sg = [MINUS]"
      "ex \<noteq> []" "\<forall>c\<in>set ex. isDigit c" and b': "b = neg @ ip @ DOT # fp @ e # sg @ ex"
      by blast
    have "normalizeNumbers b = neg @ ip @ DOT # take 2 fp"
      using normalize_neg [OF n] normalize_sci_literal [OF ip fp e] b' by simp
    moreover have "normalizeNumbers (neg @ ip @ DOT # take 2 fp) = neg @ ip @ DOT # take 6 (take 2 fp)"
      using normalize_neg [OF n] normalize_decimal_literal(2) [OF ip tk] by simp
    ultimately show ?thesis by simp
  qed
qed

lemma normalize_block_idem:
  "\<not> hasDecimalPoint b \<or> isDecimalLiteral b \<Longrightarrow> normalizeNumbers (normalizeNumbers b) = normalizeNumbers b"
  using normalize_no_point normalize_literal_idem by metis

text \<open>
  Claim C7, as amended. On a delimited text, applying the two numeric rewrites twice gives
  the same text as applying them once.
\<close>

theorem normalize_idempotent_on_delimited:
  "delimited s \<Longrightarrow> normalizeNumbers (normalizeNumbers s) = normalizeNumbers s"
proof (induction s rule: delimited.induct)
  case 1
  show ?case by simp
next
  case (2 c cs)
  show ?case
  proof (cases "isNumberChar c")
    case False
    then have d: "\<not> isDigit c" by (auto simp: isNumberChar_def)
    from False 2(3) have "delimited cs" by simp
    with 2(2) False have "normalizeNumbers (normalizeNumbers cs) = normalizeNumbers cs" by simp
    then show ?thesis using d by (simp add: normalize_Cons)
  next
    case True
    define b where "b = takeWhile isNumberChar (c # cs)"
    define rest where "rest = dropWhile isNumberChar cs"
    have s: "c # cs = b @ rest" using True unfolding b_def rest_def by simp
    have r: "rest = [] \<or> \<not> isNumberChar (hd rest)" unfolding rest_def by (rule dropWhile_hd)
    from 2(3) True have blk: "\<not> hasDecimalPoint b \<or> isDecimalLiteral b" and dr: "delimited rest"
      unfolding b_def rest_def by (simp_all add: Let_def)
    have ih: "normalizeNumbers (normalizeNumbers rest) = normalizeNumbers rest"
      using 2(1) [OF True refl] dr blk unfolding rest_def b_def by blast
    have 1: "normalizeNumbers (b @ rest) = normalizeNumbers b @ normalizeNumbers rest"
      using r by (rule normalize_append_right)
    have 2: "normalizeNumbers (normalizeNumbers b @ normalizeNumbers rest)
             = normalizeNumbers (normalizeNumbers b) @ normalizeNumbers (normalizeNumbers rest)"
      using normalize_hd [OF r] by (rule normalize_append_right)
    show ?thesis unfolding s 1 2 ih normalize_block_idem [OF blk] ..
  qed
qed

lemmas delimited_eval = isNumberChar_def isExponentPart_def isDecimalLiteral_def

theorem normalize_idempotent_on_delimited_witness:
  \<open>normalizeNumbers (normalizeNumbers (utf16 ''{"a": 8.500000000000002, "b": -5.0000000018e+00, "c": "v1.5 e. 3"}''))
   = normalizeNumbers (utf16 ''{"a": 8.500000000000002, "b": -5.0000000018e+00, "c": "v1.5 e. 3"}'')\<close>
proof -
  have \<open>delimited (utf16 ''{"a": 8.500000000000002, "b": -5.0000000018e+00, "c": "v1.5 e. 3"}'')\<close>
    by (simp add: utf16_def codeunit_defs isDigit_def optSign_def delimited_eval)
  then show ?thesis by (rule normalize_idempotent_on_delimited)
qed

text \<open>
  Claim C7 as stated fails. The scan resumes after a match, so the digits a first pass
  leaves behind can start a match in a second pass: after a truncated fraction that is
  followed by a dot, and after a dropped exponent that is followed by another one.
\<close>

theorem normalize_not_idempotent:
  "normalizeNumbers (utf16 ''1.2345678.1234567'') = utf16 ''1.234567.1234567''
   \<and> normalizeNumbers (normalizeNumbers (utf16 ''1.2345678.1234567'')) = utf16 ''1.234567.123456''
   \<and> normalizeNumbers (utf16 ''1.5e3e5'') = utf16 ''1.5e5''
   \<and> normalizeNumbers (normalizeNumbers (utf16 ''1.5e3e5'')) = utf16 ''1.5''"
  by (simp add: cleanJson_eval)

section \<open>Sanitization only deletes\<close>

lemma matchLit_shrinks: "matchLit pat s = Some (r, n) \<Longrightarrow> 0 < n \<and> subseq r (take n s)"
  by (auto simp: matchLit_def split: if_splits)



lemma stripFences_subseq: "subseq (stripFences t) t"
  unfolding stripFences_def
  by (rule subseq_order.order_trans; rule replaceG_subseq; erule matchLit_shrinks)












section \<open>The reviver on the parsed tree\<close>

lemma jsonReviver_simps [simp]:
  "jsonReviver key (JNumber x) = JNumber (roundHalfUp2 x)"
  "jsonReviver key JNull = JNull"
  "jsonReviver key (JBool b) = JBool b"
  "jsonReviver key (JString t) = JString t"
  "jsonReviver key (JArray vs) = JArray vs"
  "jsonReviver key (JObject ms) = JObject ms"
  by (simp_all add: jsonReviver_def roundHalfUp2_def Math_round_def)









text \<open>
  Claim C9, evaluated at a literal with a non-zero exponent: the exponent is dropped
  before parsing, so the literal \<open>1.0e+01\<close>, whose value is 10, is decoded to 1.
\<close>

theorem exponent_dropped_changes_value:
  \<open>generateRubricFromText (Inr \<lparr>responseText = Some (utf16 ''{"max_score": 1.0e+01}''), groundingChunks = None\<rparr>)
     = ([], Inr (JObject [(utf16 ''max_score'', JNumber 1)]))
   \<and> JSON_parse (utf16 ''{"max_score": 1.0e+01}'') = Inr (JObject [(utf16 ''max_score'', JNumber 10)])\<close>
  by (simp add: generateRubricFromText_def noText_def cleanJson_eval JSON_parse_eval)

section \<open>Failures of the operations\<close>

lemma JSON_parse_reviver_Inl:
  "JSON_parse s = Inl e \<Longrightarrow> JSON_parse_reviver s reviver = Inl e"
  by (simp add: JSON_parse_reviver_def)

lemma no_brace_whole:
  assumes "LBRACE \<notin> set raw"
  shows "extractSpan (stripFences raw) = stripFences raw"
proof (rule extractSpan_whole, intro allI notI)
  fix pre mid post
  assume "stripFences raw = pre @ LBRACE # mid @ RBRACE # post \<and>
          LBRACE \<notin> set pre \<and> RBRACE \<notin> set post"
  then have "LBRACE \<in> set (stripFences raw)" by simp
  then have "LBRACE \<in> set raw"
    using list_emb_set [OF stripFences_subseq] by metis
  with assms show False by simp
qed

lemma no_json_here_fails:
  "JSON_parse (cleanJson (utf16 ''no json here'')) = Inl (SyntaxError syntaxErrorMessage)"
  by (simp add: cleanJson_eval JSON_parse_eval)

text \<open>
  Claim C5. When the text of the response is there and its sanitized form is not valid
  JSON, rubric generation and submission evaluation both write the parser's error and
  the raw text, unmodified, to the console, and fail with their own message: the one of
  rubric generation starts with "Failed to parse rubric structure", the one of submission
  evaluation with "Failed to parse evaluation result". For a text without an opening
  brace the sanitized form is the whole fence-stripped text, normalized and trimmed.
\<close>

theorem decode_failure_reported:
  assumes "responseText response = Some raw" and "raw \<noteq> []"
    and "JSON_parse (cleanJson raw) = Inl e"
  shows "generateRubricFromText (Inr response) =
           ([ConsoleError (utf16 ''Failed to parse Rubric JSON'') e,
             ConsoleDebug (utf16 ''Raw Rubric Response:'') raw],
            Inl (Error (utf16 ''Failed to parse rubric structure. Please try again.'')))
       \<and> evaluateSubmission (Inr response) =
           ([ConsoleError (utf16 ''Failed to parse Evaluation JSON'') e,
             ConsoleDebug (utf16 ''Raw Evaluation Response:'') raw],
            Inl (Error (utf16
              ''Failed to parse evaluation result. The model may have been interrupted or produced invalid JSON.'')))
       \<and> prefix (utf16 ''Failed to parse rubric structure'')
            (utf16 ''Failed to parse rubric structure. Please try again.'')
       \<and> prefix (utf16 ''Failed to parse evaluation result'')
            (utf16 ''Failed to parse evaluation result. The model may have been interrupted or produced invalid JSON.'')
       \<and> (LBRACE \<notin> set raw \<longrightarrow> cleanJson raw = trim (normalizeNumbers (stripFences raw)))"
proof -
  have nt: "\<not> noText response" using assms(1,2) by (simp add: noText_def)
  have dec: "JSON_parse_reviver (cleanJson raw) jsonReviver = Inl e"
    using assms(3) by (rule JSON_parse_reviver_Inl)
  have 1: "generateRubricFromText (Inr response) =
           ([ConsoleError (utf16 ''Failed to parse Rubric JSON'') e,
             ConsoleDebug (utf16 ''Raw Rubric Response:'') raw],
            Inl (Error (utf16 ''Failed to parse rubric structure. Please try again.'')))"
    using nt dec assms(1) by (simp add: generateRubricFromText_def)
  have 2: "evaluateSubmission (Inr response) =
           ([ConsoleError (utf16 ''Failed to parse Evaluation JSON'') e,
             ConsoleDebug (utf16 ''Raw Evaluation Response:'') raw],
            Inl (Error (utf16
              ''Failed to parse evaluation result. The model may have been interrupted or produced invalid JSON.'')))"
    using nt dec assms(1) by (simp add: evaluateSubmission_def)
  have 3: "prefix (utf16 ''Failed to parse rubric structure'')
            (utf16 ''Failed to parse rubric structure. Please try again.'')"
    by (simp add: utf16_def)
  have 4: "prefix (utf16 ''Failed to parse evaluation result'')
            (utf16 ''Failed to parse evaluation result. The model may have been interrupted or produced invalid JSON.'')"
    by (simp add: utf16_def)
  have 5: "LBRACE \<notin> set raw \<longrightarrow> cleanJson raw = trim (normalizeNumbers (stripFences raw))"
    by (simp add: cleanJson_def no_brace_whole)
  from 1 2 3 4 5 show ?thesis by blast
qed

theorem decode_failure_reported_witness:
  "generateRubricFromText (Inr \<lparr>responseText = Some (utf16 ''no json here''), groundingChunks = None\<rparr>) =
     ([ConsoleError (utf16 ''Failed to parse Rubric JSON'') (SyntaxError syntaxErrorMessage),
       ConsoleDebug (utf16 ''Raw Rubric Response:'') (utf16 ''no json here'')],
      Inl (Error (utf16 ''Failed to parse rubric structure. Please try again.'')))
   \<and> evaluateSubmission (Inr \<lparr>responseText = Some (utf16 ''no json here''), groundingChunks = None\<rparr>) =
     ([ConsoleError (utf16 ''Failed to parse Evaluation JSON'') (SyntaxError syntaxErrorMessage),
       ConsoleDebug (utf16 ''Raw Evaluation Response:'') (utf16 ''no json here'')],
      Inl (Error (utf16
        ''Failed to parse evaluation result. The model may have been interrupted or produced invalid JSON.'')))
   \<and> cleanJson (utf16 ''no json here'') = utf16 ''no json here''"
proof -
  have a: "responseText \<lparr>responseText = Some (utf16 ''no json here''), groundingChunks = None\<rparr>
             = Some (utf16 ''no json here'')"
    by simp
  have b: "utf16 ''no json here'' \<noteq> []" by (simp add: utf16_def)
  have c: "LBRACE \<notin> set (utf16 ''no json here'')" by (simp add: utf16_def LBRACE_def)
  have d: "trim (normalizeNumbers (stripFences (utf16 ''no json here''))) = utf16 ''no json here''"
    by (simp add: cleanJson_eval)
  from decode_failure_reported [OF a b no_json_here_fails] c d show ?thesis by metis
qed

text \<open>
  Claim C6. \<open>analyzeCodeRepository\<close> has no failing outcome. When the upstream call
  throws, when the response has no text, and when the sanitized text is not valid JSON, it
  returns the object of its \<open>catch\<close> block: status "failed", implementation score 0,
  maximal score 10, no evidence, the given repository URL, and as error message the
  message of the caught error ("Unknown error" for a thrown value that is no error).
\<close>

theorem analyzeCodeRepository_degrades:
  "(upstream = Inl e \<or>
    (upstream = Inr response \<and> noText response \<and> e = Error (utf16 ''No code analysis response'')) \<or>
    (upstream = Inr response \<and> \<not> noText response \<and>
       JSON_parse (cleanJson (the (responseText response))) = Inl e)
    \<longrightarrow> analyzeCodeRepository repoUrl upstream =
          ([ConsoleError (utf16 ''Code Analysis Failed'') e], failedAnalysis repoUrl e))
   \<and> property (utf16 ''status'') (failedAnalysis repoUrl e) = Some (JString (utf16 ''failed''))
   \<and> property (utf16 ''implementation_score'') (failedAnalysis repoUrl e) = Some (JNumber 0)
   \<and> property (utf16 ''max_score'') (failedAnalysis repoUrl e) = Some (JNumber 10)
   \<and> property (utf16 ''evidence'') (failedAnalysis repoUrl e) = Some (JArray [])
   \<and> property (utf16 ''repo_url'') (failedAnalysis repoUrl e) = Some (JString repoUrl)
   \<and> property (utf16 ''error_message'') (failedAnalysis repoUrl e) = Some (JString (errorMessage e))
   \<and> errorMessage (Error m) = m \<and> errorMessage (SyntaxError m) = m
   \<and> errorMessage NonError = utf16 ''Unknown error''"
proof -
  have "analyzeAttempt upstream = Inl e"
    if "upstream = Inl e \<or>
        (upstream = Inr response \<and> noText response \<and> e = Error (utf16 ''No code analysis response'')) \<or>
        (upstream = Inr response \<and> \<not> noText response \<and>
           JSON_parse (cleanJson (the (responseText response))) = Inl e)"
    using that by (auto simp: analyzeAttempt_def JSON_parse_reviver_Inl)
  then have 1: "upstream = Inl e \<or>
    (upstream = Inr response \<and> noText response \<and> e = Error (utf16 ''No code analysis response'')) \<or>
    (upstream = Inr response \<and> \<not> noText response \<and>
       JSON_parse (cleanJson (the (responseText response))) = Inl e)
    \<longrightarrow> analyzeCodeRepository repoUrl upstream =
          ([ConsoleError (utf16 ''Code Analysis Failed'') e], failedAnalysis repoUrl e)"
    by (simp add: analyzeCodeRepository_def)
  have 2: "property (utf16 ''status'') (failedAnalysis repoUrl e) = Some (JString (utf16 ''failed''))"
    "property (utf16 ''implementation_score'') (failedAnalysis repoUrl e) = Some (JNumber 0)"
    "property (utf16 ''max_score'') (failedAnalysis repoUrl e) = Some (JNumber 10)"
    "property (utf16 ''evidence'') (failedAnalysis repoUrl e) = Some (JArray [])"
    "property (utf16 ''repo_url'') (failedAnalysis repoUrl e) = Some (JString repoUrl)"
    "property (utf16 ''error_message'') (failedAnalysis repoUrl e) = Some (JString (errorMessage e))"
    by (simp_all add: failedAnalysis_def utf16_def)
  have 3: "errorMessage (Error m) = m" "errorMessage (SyntaxError m) = m"
    "errorMessage NonError = utf16 ''Unknown error''"
    by (simp_all add: errorMessage_def)
  from 1 2 3 show ?thesis by blast
qed

theorem analyzeCodeRepository_degrades_witness:
  "analyzeCodeRepository (utf16 ''https://github.com/u/r'') (Inl NonError) =
     ([ConsoleError (utf16 ''Code Analysis Failed'') NonError],
      failedAnalysis (utf16 ''https://github.com/u/r'') NonError)
   \<and> analyzeCodeRepository (utf16 ''https://github.com/u/r'')
        (Inr \<lparr>responseText = None, groundingChunks = None\<rparr>) =
     ([ConsoleError (utf16 ''Code Analysis Failed'') (Error (utf16 ''No code analysis response''))],
      failedAnalysis (utf16 ''https://github.com/u/r'') (Error (utf16 ''No code analysis response'')))
   \<and> analyzeCodeRepository (utf16 ''https://github.com/u/r'')
        (Inr \<lparr>responseText = Some (utf16 ''no json here''), groundingChunks = None\<rparr>) =
     ([ConsoleError (utf16 ''Code Analysis Failed'') (SyntaxError syntaxErrorMessage)],
      failedAnalysis (utf16 ''https://github.com/u/r'') (SyntaxError syntaxErrorMessage))"
proof -
  let ?u = "utf16 ''https://github.com/u/r''"
  let ?r0 = "\<lparr>responseText = None, groundingChunks = None\<rparr>"
  let ?r1 = "\<lparr>responseText = Some (utf16 ''no json here''), groundingChunks = None\<rparr>"
  have n0: "noText ?r0" by (simp add: noText_def)
  have n1: "\<not> noText ?r1" by (simp add: noText_def utf16_def)
  have p1: "JSON_parse (cleanJson (the (responseText ?r1))) = Inl (SyntaxError syntaxErrorMessage)"
    using no_json_here_fails by simp
  from analyzeCodeRepository_degrades [of "Inl NonError" NonError ?r0 ?u]
  have a: "analyzeCodeRepository ?u (Inl NonError) =
     ([ConsoleError (utf16 ''Code Analysis Failed'') NonError], failedAnalysis ?u NonError)"
    by blast
  from analyzeCodeRepository_degrades
    [of "Inr ?r0" "Error (utf16 ''No code analysis response'')" ?r0 ?u] n0
  have b: "analyzeCodeRepository ?u (Inr ?r0) =
     ([ConsoleError (utf16 ''Code Analysis Failed'') (Error (utf16 ''No code analysis response''))],
      failedAnalysis ?u (Error (utf16 ''No code analysis response'')))"
    by blast
  from analyzeCodeRepository_degrades [of "Inr ?r1" "SyntaxError syntaxErrorMessage" ?r1 ?u] n1 p1
  have c: "analyzeCodeRepository ?u (Inr ?r1) =
     ([ConsoleError (utf16 ''Code Analysis Failed'') (SyntaxError syntaxErrorMessage)],
      failedAnalysis ?u (SyntaxError syntaxErrorMessage))"
    by blast
  from a b c show ?thesis by blast
qed

text \<open>
  Claim C10. On a response without text, \<open>transcribeAudioNote\<close> returns the empty
  string, and \<open>checkFacts\<close> returns a result with the text "No information found.", the
  query it was given, and only sources whose uri is not empty. Rubric generation and
  submission evaluation fail on such a response.
\<close>

theorem empty_response_defaults:
  assumes "noText response"
  shows "transcribeAudioNote (Inr response) = Inr []
       \<and> (\<exists>g. checkFacts q (Inr response) = Inr g
              \<and> resultText g = utf16 ''No information found.''
              \<and> query g = q
              \<and> (\<forall>s \<in> set (sources g). source_uri s \<noteq> []))
       \<and> snd (generateRubricFromText (Inr response)) = Inl (Error (utf16 ''No response from Gemini''))
       \<and> snd (evaluateSubmission (Inr response)) = Inl (Error (utf16 ''No evaluation generated''))"
proof -
  from assms have t: "orElse (responseText response) d = d" for d
    by (auto simp: noText_def orElse_def)
  have 1: "transcribeAudioNote (Inr response) = Inr []"
    by (simp add: transcribeAudioNote_def t)
  have 2: "\<exists>g. checkFacts q (Inr response) = Inr g
              \<and> resultText g = utf16 ''No information found.''
              \<and> query g = q
              \<and> (\<forall>s \<in> set (sources g). source_uri s \<noteq> [])"
    by (simp add: checkFacts_def Let_def t)
  have 3: "snd (generateRubricFromText (Inr response)) = Inl (Error (utf16 ''No response from Gemini''))"
    using assms by (simp add: generateRubricFromText_def)
  have 4: "snd (evaluateSubmission (Inr response)) = Inl (Error (utf16 ''No evaluation generated''))"
    using assms by (simp add: evaluateSubmission_def)
  from 1 2 3 4 show ?thesis by blast
qed

theorem empty_response_defaults_witness:
  "transcribeAudioNote (Inr \<lparr>responseText = None, groundingChunks =
       Some [\<lparr>web = Some \<lparr>uri = Some (utf16 ''https://a.example''), title = None\<rparr>\<rparr>,
             \<lparr>web = Some \<lparr>uri = None, title = Some (utf16 ''T'')\<rparr>\<rparr>,
             \<lparr>web = None\<rparr>]\<rparr>) = Inr []
   \<and> checkFacts (utf16 ''is water wet'') (Inr \<lparr>responseText = None, groundingChunks =
       Some [\<lparr>web = Some \<lparr>uri = Some (utf16 ''https://a.example''), title = None\<rparr>\<rparr>,
             \<lparr>web = Some \<lparr>uri = None, title = Some (utf16 ''T'')\<rparr>\<rparr>,
             \<lparr>web = None\<rparr>]\<rparr>) =
       Inr \<lparr>query = utf16 ''is water wet'',
            sources = [\<lparr>source_uri = utf16 ''https://a.example'', source_title = utf16 ''Source''\<rparr>],
            resultText = utf16 ''No information found.''\<rparr>"
proof -
  let ?r = "\<lparr>responseText = None, groundingChunks =
       Some [\<lparr>web = Some \<lparr>uri = Some (utf16 ''https://a.example''), title = None\<rparr>\<rparr>,
             \<lparr>web = Some \<lparr>uri = None, title = Some (utf16 ''T'')\<rparr>\<rparr>,
             \<lparr>web = None\<rparr>]\<rparr>"
  have n: "noText ?r" by (simp add: noText_def)
  from empty_response_defaults [OF n, of "utf16 ''is water wet''"]
  have "transcribeAudioNote (Inr ?r) = Inr []" by blast
  moreover have "checkFacts (utf16 ''is water wet'') (Inr ?r) =
       Inr \<lparr>query = utf16 ''is water wet'',
            sources = [\<lparr>source_uri = utf16 ''https://a.example'', source_title = utf16 ''Source''\<rparr>],
            resultText = utf16 ''No information found.''\<rparr>"
    by (simp add: checkFacts_def Let_def toSource_def orElse_def utf16_def)
  ultimately show ?thesis by blast
qed

end
